theory Spec2Isabelle
  imports Main "HOL-Library.Word"
begin

unbundle bit_operations_syntax

section \<open>Data model (magicBytes.ts, mimeTypes.ts)\<close>

text \<open>
  A \<open>Buffer\<close> is a sequence of unsigned bytes. The signature table holds JavaScript
  numbers; all numbers that occur are integers, so they are modelled as \<open>int\<close>.
  The optional fields \<open>mask?\<close> and \<open>offset?\<close> of the interface \<open>MagicByte\<close> are
  options; the field \<open>mask\<close> is called \<open>maskArr\<close> here because \<open>mask\<close> is a constant
  of the word library. An offset is an index into the buffer, hence a natural number.
\<close>

type_synonym Buffer = "8 word list"

record MagicByte =
  bytes :: "int list"
  maskArr :: "int list option"
  offset :: "nat option"

record MagicByteDefinition =
  mimeType :: string
  signatures :: "MagicByte list"

definition sig0 :: "int list \<Rightarrow> MagicByte" where
  \<comment> \<open>the object literal \<open>{ bytes: bs }\<close>\<close>
  "sig0 bs = \<lparr>bytes = bs, maskArr = None, offset = None\<rparr>"

definition sigAt :: "int list \<Rightarrow> nat \<Rightarrow> MagicByte" where
  \<comment> \<open>the object literal \<open>{ bytes: bs, offset: k }\<close>\<close>
  "sigAt bs k = \<lparr>bytes = bs, maskArr = None, offset = Some k\<rparr>"

definition magicBytes :: "MagicByteDefinition list" where
  "magicBytes =
    [ \<lparr>mimeType = ''application/pdf'',
       signatures = [sig0 [0x25, 0x50, 0x44, 0x46]]\<rparr>,
      \<lparr>mimeType = ''image/jpeg'',
       signatures = [sig0 [0xff, 0xd8, 0xff, 0xe0], sig0 [0xff, 0xd8, 0xff, 0xe1],
                     sig0 [0xff, 0xd8, 0xff, 0xe8]]\<rparr>,
      \<lparr>mimeType = ''image/png'',
       signatures = [sig0 [0x89, 0x50, 0x4e, 0x47, 0x0d, 0x0a, 0x1a, 0x0a]]\<rparr>,
      \<lparr>mimeType = ''image/gif'',
       signatures = [sig0 [0x47, 0x49, 0x46, 0x38, 0x37, 0x61],
                     sig0 [0x47, 0x49, 0x46, 0x38, 0x39, 0x61]]\<rparr>,
      \<lparr>mimeType = ''audio/mpeg'',
       signatures = [sig0 [0x49, 0x44, 0x33], sig0 [0xff, 0xfb]]\<rparr>,
      \<lparr>mimeType = ''video/mp4'',
       signatures = [sigAt [0x66, 0x74, 0x79, 0x70] 4, sigAt [0x6d, 0x70, 0x34, 0x32] 8]\<rparr>,
      \<lparr>mimeType = ''video/webm'',
       signatures = [sig0 [0x1a, 0x45, 0xdf, 0xa3]]\<rparr> ]"

section \<open>JavaScript primitives used by the matcher\<close>

text \<open>
  \<open>a & b\<close> converts both operands to 32-bit signed integers and yields a 32-bit signed
  integer. A read outside an array yields \<open>undefined\<close> (here \<open>None\<close>), and
  \<open>undefined\<close> converts to 0 under \<open>&\<close>.
\<close>

definition jsBitAnd :: "int \<Rightarrow> int \<Rightarrow> int" where
  "jsBitAnd a b = sint ((word_of_int a :: 32 word) AND word_of_int b)"

definition jsNum :: "int option \<Rightarrow> int" where
  "jsNum v = (case v of None \<Rightarrow> 0 | Some n \<Rightarrow> n)"

definition bufferAt :: "Buffer \<Rightarrow> nat \<Rightarrow> int option" where
  \<comment> \<open>\<open>buffer[k]\<close>\<close>
  "bufferAt buffer k = (if k < length buffer then Some (uint (buffer ! k)) else None)"

definition arrayAt :: "int list \<Rightarrow> nat \<Rightarrow> int option" where
  \<comment> \<open>\<open>arr[k]\<close> on a number array\<close>
  "arrayAt arr k = (if k < length arr then Some (arr ! k) else None)"

section \<open>checkMagicBytes\<close>

definition offsetOf :: "MagicByte \<Rightarrow> nat" where
  \<comment> \<open>\<open>signature.offset || 0\<close>\<close>
  "offsetOf signature = (case offset signature of None \<Rightarrow> 0 | Some k \<Rightarrow> k)"

definition maskAt :: "MagicByte \<Rightarrow> nat \<Rightarrow> int" where
  \<comment> \<open>\<open>signature.mask ? signature.mask[i] : 0xff\<close>, as the operand of \<open>&\<close>\<close>
  "maskAt signature i =
     (case maskArr signature of None \<Rightarrow> 0xff | Some m \<Rightarrow> jsNum (arrayAt m i))"

text \<open>
  The inner \<open>for\<close> loop over the positions of one signature. Besides the final value of
  \<open>matches\<close> it returns the list of buffer indices it has read, in order, so that claims
  about the accesses can be stated.
\<close>

function matchLoop :: "Buffer \<Rightarrow> MagicByte \<Rightarrow> nat \<Rightarrow> nat list \<Rightarrow> bool \<times> nat list" where
  "matchLoop buffer signature i reads =
     (if i < length (bytes signature) then
        (let byte = bufferAt buffer (offsetOf signature + i);
             signatureByte = bytes signature ! i;
             msk = maskAt signature i;
             reads' = reads @ [offsetOf signature + i]
         in if jsBitAnd (jsNum byte) msk \<noteq> jsBitAnd signatureByte msk
            then (False, reads')
            else matchLoop buffer signature (i + 1) reads')
      else (True, reads))"
  by pat_completeness auto
termination
  by (relation "measure (\<lambda>(buffer, signature, i, reads). length (bytes signature) - i)") auto

declare matchLoop.simps [simp del]

definition checkSignature :: "Buffer \<Rightarrow> MagicByte \<Rightarrow> bool \<times> nat list" where
  \<comment> \<open>the body of the loop over \<open>type.signatures\<close>: the length guard, then the inner loop\<close>
  "checkSignature buffer signature =
     (if length buffer < offsetOf signature + length (bytes signature) then (False, [])
      else matchLoop buffer signature 0 [])"

definition signatureMatches :: "Buffer \<Rightarrow> MagicByte \<Rightarrow> bool" where
  "signatureMatches buffer signature = fst (checkSignature buffer signature)"

definition signatureReads :: "Buffer \<Rightarrow> MagicByte \<Rightarrow> nat list" where
  "signatureReads buffer signature = snd (checkSignature buffer signature)"

fun checkSignatures :: "Buffer \<Rightarrow> string \<Rightarrow> MagicByte list \<Rightarrow> string option" where
  "checkSignatures buffer mt [] = None"
| "checkSignatures buffer mt (signature # rest) =
     (if signatureMatches buffer signature then Some mt
      else checkSignatures buffer mt rest)"

fun checkTypes :: "Buffer \<Rightarrow> MagicByteDefinition list \<Rightarrow> string option" where
  "checkTypes buffer [] = None"
| "checkTypes buffer (type # rest) =
     (case checkSignatures buffer (mimeType type) (signatures type) of
        Some mt \<Rightarrow> Some mt
      | None \<Rightarrow> checkTypes buffer rest)"

definition checkMagicBytes :: "Buffer \<Rightarrow> string option" where
  "checkMagicBytes buffer = checkTypes buffer magicBytes"

text \<open>
  The specification's reading of the search order: all signatures of the table, each
  paired with the MIME type of its group, group by group.
\<close>

definition declarationOrder :: "MagicByteDefinition list \<Rightarrow> (string \<times> MagicByte) list" where
  "declarationOrder table =
     concat (map (\<lambda>type. map (\<lambda>signature. (mimeType type, signature)) (signatures type)) table)"

definition positionAgrees :: "Buffer \<Rightarrow> MagicByte \<Rightarrow> nat \<Rightarrow> bool" where
  \<comment> \<open>\<open>(buffer[offset+i] & mask[i]) == (bytes[i] & mask[i])\<close>\<close>
  "positionAgrees buffer signature i =
     (jsBitAnd (uint (buffer ! (offsetOf signature + i))) (maskAt signature i)
        = jsBitAnd (bytes signature ! i) (maskAt signature i))"

section \<open>The extension table (mimeTypes.ts)\<close>

text \<open>
  The object literal \<open>mimeTypes\<close>, as the list of its own properties in declaration
  order (the order \<open>Object.entries\<close> enumerates string keys in).
\<close>

definition mimeTypes :: "(string \<times> string) list" where
  "mimeTypes =
    [ (''pdf'', ''application/pdf''),
      (''doc'', ''application/msword''),
      (''docx'', ''application/vnd.openxmlformats-officedocument.wordprocessingml.document''),
      (''txt'', ''text/plain''),
      (''rtf'', ''application/rtf''),
      (''jpg'', ''image/jpeg''),
      (''jpeg'', ''image/jpeg''),
      (''png'', ''image/png''),
      (''gif'', ''image/gif''),
      (''webp'', ''image/webp''),
      (''svg'', ''image/svg+xml''),
      (''mp3'', ''audio/mpeg''),
      (''wav'', ''audio/wav''),
      (''ogg'', ''audio/ogg''),
      (''m4a'', ''audio/mp4''),
      (''mp4'', ''video/mp4''),
      (''webm'', ''video/webm''),
      (''avi'', ''video/x-msvideo''),
      (''mov'', ''video/quicktime''),
      (''mkv'', ''video/x-matroska'') ]"

text \<open>
  The values a property read \<open>mimeTypes[key]\<close> can produce. \<open>mimeTypes\<close> is an ordinary
  object literal, so a key that is not one of its own properties is looked up on
  \<open>Object.prototype\<close>; those inherited members are functions and objects, named here by
  their path. \<open>None\<close> stands for \<open>undefined\<close>.
\<close>

datatype jsValue = JString string | JBuiltin string

definition objectPrototypeMembers :: "string list" where
  "objectPrototypeMembers =
    [ ''constructor'', ''__defineGetter__'', ''__defineSetter__'', ''hasOwnProperty'',
      ''__lookupGetter__'', ''__lookupSetter__'', ''isPrototypeOf'', ''propertyIsEnumerable'',
      ''toString'', ''valueOf'', ''__proto__'', ''toLocaleString'' ]"

definition objectPrototypeGet :: "string \<Rightarrow> jsValue option" where
  "objectPrototypeGet key =
     (if key = ''constructor'' then Some (JBuiltin ''Object'')
      else if key = ''__proto__'' then Some (JBuiltin ''Object.prototype'')
      else if key \<in> set objectPrototypeMembers then Some (JBuiltin (''Object.prototype.'' @ key))
      else None)"

definition mimeTypesGet :: "string \<Rightarrow> jsValue option" where
  \<comment> \<open>\<open>mimeTypes[key]\<close>\<close>
  "mimeTypesGet key =
     (case map_of mimeTypes key of
        Some v \<Rightarrow> Some (JString v)
      | None \<Rightarrow> objectPrototypeGet key)"

definition truthy :: "jsValue option \<Rightarrow> bool" where
  "truthy v = (case v of None \<Rightarrow> False | Some (JString s) \<Rightarrow> s \<noteq> [] | Some (JBuiltin _) \<Rightarrow> True)"

section \<open>Strings, the runtime and the outside world\<close>

text \<open>
  A string is a list of bytes, read as the UTF-8 encoding of the JavaScript string. The
  operations below look only for the ASCII characters \<open>/\<close> and \<open>.\<close> and for ASCII
  prefixes, and bytes of multi-byte characters are never ASCII, so they cut the text where
  the code cuts it.

  \<open>String.prototype.toLowerCase\<close> belongs to the JavaScript runtime and maps far more than
  the ASCII letters. It is therefore not defined here but taken from the environment of a
  call, the record \<open>World\<close>, together with what \<open>axios.get\<close>, \<open>fs.openSync\<close>,
  \<open>fs.readSync\<close> and \<open>fs.closeSync\<close> do. Each of the latter either throws (\<open>Inl\<close>) or
  returns; \<open>fileData fd\<close> is the content of the open file.
\<close>

datatype ioError = IOError string

record World =
  toLowerCase :: "string \<Rightarrow> string"
  axiosGet :: "string \<Rightarrow> ioError + Buffer"
  openSync :: "string \<Rightarrow> ioError + nat"
  fileData :: "nat \<Rightarrow> ioError + Buffer"
  closeSync :: "nat \<Rightarrow> ioError option"

text \<open>
  What is known of the runtime's \<open>toLowerCase\<close> is stated against the folding of the
  ASCII letters: on a string of ASCII characters the runtime maps \<open>A\<close> to \<open>Z\<close> to \<open>a\<close> to
  \<open>z\<close> and leaves every other character as it is.
\<close>

definition isAscii :: "string \<Rightarrow> bool" where
  "isAscii s = list_all (\<lambda>c. (of_char c :: nat) < 128) s"

definition asciiLowerChar :: "char \<Rightarrow> char" where
  "asciiLowerChar c =
     (if 65 \<le> (of_char c :: nat) \<and> (of_char c :: nat) \<le> 90
      then char_of ((of_char c :: nat) + 32) else c)"

definition asciiLowerCase :: "string \<Rightarrow> string" where
  "asciiLowerCase s = map asciiLowerChar s"

definition startsWith :: "string \<Rightarrow> string \<Rightarrow> bool" where
  "startsWith s p = (take (length p) s = p)"

definition slice :: "string \<Rightarrow> nat \<Rightarrow> nat \<Rightarrow> string" where
  \<comment> \<open>\<open>s.slice(a, b)\<close> for indices \<open>0 \<le> a\<close>, \<open>0 \<le> b\<close>\<close>
  "slice s a b = take (b - a) (drop a s)"

definition slice1 :: "string \<Rightarrow> string" where
  \<comment> \<open>\<open>s.slice(1)\<close>; the strings it is applied to are empty or begin with the ASCII dot\<close>
  "slice1 s = drop 1 s"

subsection \<open>path.extname\<close>

text \<open>
  \<open>path.extname\<close> belongs to the Node.js runtime. It is modelled by the backward scan of
  the POSIX variant: trailing slashes are skipped, the scan stops at the slash in front
  of the last path component, \<open>startDot\<close> is the last dot of that component, and
  \<open>preDotState\<close> records what was seen to the left of that dot. The value \<open>-1\<close> means
  "not set", as in the runtime.
\<close>

record ExtState =
  startDot :: int
  startPart :: int
  endPos :: int
  matchedSlash :: bool
  preDotState :: int

definition extInit :: ExtState where
  "extInit = \<lparr>startDot = -1, startPart = 0, endPos = -1, matchedSlash = True, preDotState = 0\<rparr>"

fun extnameLoop :: "string \<Rightarrow> nat \<Rightarrow> ExtState \<Rightarrow> ExtState" where
  "extnameLoop path 0 st = st"
| "extnameLoop path (Suc i) st =
     (if path ! i = CHR ''/'' then
        (if \<not> matchedSlash st then st\<lparr>startPart := int i + 1\<rparr>
         else extnameLoop path i st)
      else
        (let st1 = (if endPos st = -1 then st\<lparr>matchedSlash := False, endPos := int i + 1\<rparr>
                    else st);
             st2 = (if path ! i = CHR ''.'' then
                      (if startDot st1 = -1 then st1\<lparr>startDot := int i\<rparr>
                       else if preDotState st1 \<noteq> 1 then st1\<lparr>preDotState := 1\<rparr>
                       else st1)
                    else if startDot st1 \<noteq> -1 then st1\<lparr>preDotState := -1\<rparr>
                    else st1)
         in extnameLoop path i st2))"

definition extname :: "string \<Rightarrow> string" where
  "extname path =
     (let st = extnameLoop path (length path) extInit in
      if startDot st = -1 \<or> endPos st = -1 \<or> preDotState st = 0 \<or>
         (preDotState st = 1 \<and> startDot st = endPos st - 1 \<and> startDot st = startPart st + 1)
      then ''''
      else slice path (nat (startDot st)) (nat (endPos st)))"

definition derivedExtension :: "World \<Rightarrow> string \<Rightarrow> string" where
  \<comment> \<open>\<open>path.extname(filePathOrUrl).toLowerCase().slice(1)\<close>\<close>
  "derivedExtension world filePathOrUrl = slice1 (toLowerCase world (extname filePathOrUrl))"

section \<open>getMimeType\<close>

definition getBufferFromUrl :: "World \<Rightarrow> string \<Rightarrow> ioError + Buffer" where
  "getBufferFromUrl world url = axiosGet world url"

definition Buffer_alloc :: "nat \<Rightarrow> Buffer" where
  \<comment> \<open>\<open>Buffer.alloc(n)\<close>: n zero bytes\<close>
  "Buffer_alloc n = replicate n 0"

definition readSync ::
  "World \<Rightarrow> nat \<Rightarrow> Buffer \<Rightarrow> nat \<Rightarrow> nat \<Rightarrow> nat \<Rightarrow> ioError + (Buffer \<times> nat)" where
  \<comment> \<open>\<open>fs.readSync(fd, buffer, offset, length, position)\<close> with
      \<open>offset + length \<le> buffer.length\<close>: copies up to \<open>length\<close> bytes of the file, from
      \<open>position\<close> on, into the buffer at \<open>offset\<close>; returns the buffer and the number of
      bytes read\<close>
  "readSync world fd buffer off len position =
     (case fileData world fd of
        Inl e \<Rightarrow> Inl e
      | Inr content \<Rightarrow>
          (let chunk = take len (drop position content)
           in Inr (take off buffer @ chunk @ drop (off + length chunk) buffer, length chunk)))"

definition acquire :: "World \<Rightarrow> string \<Rightarrow> ioError + Buffer" where
  \<comment> \<open>the statements of the \<open>try\<close> block up to the call of \<open>checkMagicBytes\<close>\<close>
  "acquire world filePathOrUrl =
     (if startsWith filePathOrUrl ''http://'' \<or> startsWith filePathOrUrl ''https://''
      then getBufferFromUrl world filePathOrUrl
      else
        (case openSync world filePathOrUrl of
           Inl e \<Rightarrow> Inl e
         | Inr fd \<Rightarrow>
             (case readSync world fd (Buffer_alloc 12) 0 12 0 of
                Inl e \<Rightarrow> Inl e
              | Inr (buffer, bytesRead) \<Rightarrow>
                  (case closeSync world fd of
                     Some e \<Rightarrow> Inl e
                   | None \<Rightarrow> Inr buffer))))"

definition extensionFallback ::
  "(string \<Rightarrow> jsValue option) \<Rightarrow> World \<Rightarrow> string \<Rightarrow> jsValue" where
  \<comment> \<open>\<open>table[extension] || 'application/octet-stream'\<close>\<close>
  "extensionFallback table world filePathOrUrl =
     (let extension = derivedExtension world filePathOrUrl in
      case table extension of
        Some v \<Rightarrow> (if truthy (Some v) then v else JString ''application/octet-stream'')
      | None \<Rightarrow> JString ''application/octet-stream'')"

definition getMimeTypeWith :: "(string \<Rightarrow> jsValue option) \<Rightarrow> World \<Rightarrow> string \<Rightarrow> jsValue" where
  \<comment> \<open>\<open>getMimeType\<close> with the property read on the extension table as a parameter\<close>
  "getMimeTypeWith table world filePathOrUrl =
     (case acquire world filePathOrUrl of
        Inl error \<Rightarrow> extensionFallback table world filePathOrUrl
      | Inr buffer \<Rightarrow>
          (case checkMagicBytes buffer of
             Some magicByteMimeType \<Rightarrow>
               (if truthy (Some (JString magicByteMimeType)) then JString magicByteMimeType
                else extensionFallback table world filePathOrUrl)
           | None \<Rightarrow> extensionFallback table world filePathOrUrl))"

definition getMimeType :: "World \<Rightarrow> string \<Rightarrow> jsValue" where
  "getMimeType world filePathOrUrl = getMimeTypeWith mimeTypesGet world filePathOrUrl"

section \<open>Category predicates and getMimeExtension\<close>

text \<open>
  \<open>mimeType.startsWith(...)\<close> is a method call on the resolved value: on a value that is
  not a string it throws a \<open>TypeError\<close>.
\<close>

datatype jsError = TypeError

definition isDocumentType :: "jsValue \<Rightarrow> jsError + bool" where
  "isDocumentType v =
     (case v of JString mt \<Rightarrow> Inr (startsWith mt ''application/'' \<or> mt = ''text/plain'')
              | JBuiltin _ \<Rightarrow> Inl TypeError)"

definition isImageType :: "jsValue \<Rightarrow> jsError + bool" where
  "isImageType v =
     (case v of JString mt \<Rightarrow> Inr (startsWith mt ''image/'') | JBuiltin _ \<Rightarrow> Inl TypeError)"

definition isAudioType :: "jsValue \<Rightarrow> jsError + bool" where
  "isAudioType v =
     (case v of JString mt \<Rightarrow> Inr (startsWith mt ''audio/'') | JBuiltin _ \<Rightarrow> Inl TypeError)"

definition isVideoType :: "jsValue \<Rightarrow> jsError + bool" where
  "isVideoType v =
     (case v of JString mt \<Rightarrow> Inr (startsWith mt ''video/'') | JBuiltin _ \<Rightarrow> Inl TypeError)"

definition isDocument :: "World \<Rightarrow> string \<Rightarrow> jsError + bool" where
  "isDocument world filePathOrUrl = isDocumentType (getMimeType world filePathOrUrl)"

definition isImage :: "World \<Rightarrow> string \<Rightarrow> jsError + bool" where
  "isImage world filePathOrUrl = isImageType (getMimeType world filePathOrUrl)"

definition isAudio :: "World \<Rightarrow> string \<Rightarrow> jsError + bool" where
  "isAudio world filePathOrUrl = isAudioType (getMimeType world filePathOrUrl)"

definition isVideo :: "World \<Rightarrow> string \<Rightarrow> jsError + bool" where
  "isVideo world filePathOrUrl = isVideoType (getMimeType world filePathOrUrl)"

definition getMimeExtension :: "World \<Rightarrow> string \<Rightarrow> string option" where
  "getMimeExtension world mt =
     (let normalizedMimeType = toLowerCase world mt in
      case find (\<lambda>(ext, mime). toLowerCase world mime = normalizedMimeType) mimeTypes of
        Some extension \<Rightarrow> Some (''.'' @ fst extension)
      | None \<Rightarrow> None)"

section \<open>Auxiliary notions for stating the properties\<close>

text \<open>
  A world with one readable file: \<open>openSync\<close> succeeds on \<open>name\<close> only, reading yields
  \<open>content\<close>, and every HTTP request fails; its \<open>toLowerCase\<close> is the ASCII folding, which
  is what the runtime computes on the ASCII strings of the concrete instances.
\<close>

definition singleFileWorld :: "string \<Rightarrow> Buffer \<Rightarrow> World" where
  "singleFileWorld name content =
     \<lparr>toLowerCase = asciiLowerCase,
      axiosGet = (\<lambda>url. Inl (IOError ''ENOTFOUND'')),
      openSync = (\<lambda>p. if p = name then Inr 3 else Inl (IOError ''ENOENT'')),
      fileData = (\<lambda>fd. if fd = 3 then Inr content else Inl (IOError ''EBADF'')),
      closeSync = (\<lambda>fd. None)\<rparr>"

text \<open>
  A sample of what a runtime's \<open>toLowerCase\<close> does beyond ASCII, on UTF-8 bytes: the
  capital E with acute accent (U+00C9, bytes C3 89) goes to the small one (U+00E9, bytes
  C3 A9), the Kelvin sign (U+212A, bytes E2 84 AA) goes to \<open>k\<close>, and ASCII letters are
  folded. It serves as a concrete environment for inputs outside ASCII.
\<close>

fun sampleToLowerCase :: "string \<Rightarrow> string" where
  "sampleToLowerCase [] = []"
| "sampleToLowerCase (c # r) =
     (if c = CHR 0xC3 \<and> take 1 r = [CHR 0x89]
      then CHR 0xC3 # CHR 0xA9 # sampleToLowerCase (drop 1 r)
      else if c = CHR 0xE2 \<and> take 2 r = [CHR 0x84, CHR 0xAA]
      then CHR ''k'' # sampleToLowerCase (drop 2 r)
      else asciiLowerChar c # sampleToLowerCase r)"

definition sampleWorld :: World where
  "sampleWorld = (singleFileWorld [] []) \<lparr>toLowerCase := sampleToLowerCase\<rparr>"

text \<open>
  The specification's reading of one comparison, with the bitwise "and" of the integers
  rather than the operator of the code: the offset is 0 when absent, the mask is \<open>0xFF\<close>
  at every position when absent, and position \<open>i\<close> agrees when
  \<open>(buffer[offset+i] & mask[i]) = (bytes[i] & mask[i])\<close>. A mask is well formed, as the
  data model requires, when it has one unsigned 8-bit value for each byte of the signature.
\<close>

definition specOffset :: "MagicByte \<Rightarrow> nat" where
  "specOffset signature = (case offset signature of None \<Rightarrow> 0 | Some k \<Rightarrow> k)"

definition specMaskAt :: "MagicByte \<Rightarrow> nat \<Rightarrow> int" where
  "specMaskAt signature i = (case maskArr signature of None \<Rightarrow> 0xff | Some m \<Rightarrow> m ! i)"

definition maskedEqual :: "Buffer \<Rightarrow> MagicByte \<Rightarrow> nat \<Rightarrow> bool" where
  "maskedEqual buffer signature i =
     ((uint (buffer ! (specOffset signature + i)) AND specMaskAt signature i)
        = (bytes signature ! i AND specMaskAt signature i))"

definition maskWellFormed :: "MagicByte \<Rightarrow> bool" where
  "maskWellFormed signature =
     (case maskArr signature of
        None \<Rightarrow> True
      | Some m \<Rightarrow> length m = length (bytes signature) \<and> list_all (\<lambda>x. 0 \<le> x \<and> x \<le> 0xff) m)"

text \<open>
  A signature with a mask and an offset, and a table that holds it behind a group that
  needs more bytes, for concrete instances of the masked comparison.
\<close>

definition maskedSignature :: MagicByte where
  "maskedSignature = \<lparr>bytes = [0x80, 0x01], maskArr = Some [0xf0, 0xff], offset = Some 1\<rparr>"

definition maskedTable :: "MagicByteDefinition list" where
  "maskedTable =
     [ \<lparr>mimeType = ''application/pdf'', signatures = [sig0 [0x25, 0x50, 0x44, 0x46]]\<rparr>,
       \<lparr>mimeType = ''application/x-masked'', signatures = [maskedSignature]\<rparr> ]"

text \<open>
  The specification's "the buffer's bytes at the signature's offset exactly equal the
  signature's bytes", for a buffer of at least offset plus signature length.
\<close>

definition bytesEqualAt :: "Buffer \<Rightarrow> MagicByte \<Rightarrow> bool" where
  "bytesEqualAt buffer signature =
     (offsetOf signature + length (bytes signature) \<le> length buffer \<and>
      map uint (take (length (bytes signature)) (drop (offsetOf signature) buffer))
        = bytes signature)"

text \<open>
  Two signatures clash when some position of the second lies inside the span of the first
  and, under the second's mask, the two prescribe different bytes there: a buffer carrying
  the first at its offset cannot match the second.
\<close>

definition signaturesClash :: "MagicByte \<Rightarrow> MagicByte \<Rightarrow> bool" where
  "signaturesClash s s' =
     list_ex (\<lambda>i. offsetOf s \<le> offsetOf s' + i \<and>
                  offsetOf s' + i - offsetOf s < length (bytes s) \<and>
                  jsBitAnd (bytes s ! (offsetOf s' + i - offsetOf s)) (maskAt s' i)
                    \<noteq> jsBitAnd (bytes s' ! i) (maskAt s' i))
             [0 ..< length (bytes s')]"

text \<open>
  The specification's reading of the extension: the text after the last dot of a string,
  lower-cased, and nothing when the string has no dot.
\<close>

definition afterLastDot :: "string \<Rightarrow> string" where
  "afterLastDot s = rev (takeWhile (\<lambda>c. c \<noteq> CHR ''.'') (rev s))"

definition specExtension :: "World \<Rightarrow> string \<Rightarrow> string" where
  "specExtension world d =
     (if CHR ''.'' \<in> set d then toLowerCase world (afterLastDot d) else [])"

text \<open>
  The last path component of a descriptor: trailing slashes are dropped, then the text
  after the last remaining slash is taken.
\<close>

definition lastComponent :: "string \<Rightarrow> string" where
  "lastComponent d =
     rev (takeWhile (\<lambda>c. c \<noteq> CHR ''/'') (dropWhile (\<lambda>c. c = CHR ''/'') (rev d)))"

text \<open>
  The scan of \<open>extnameLoop\<close> written as a recursion over the reversed prefix it still has
  to visit (its head is the character at the current index), and the slash-free prefix of
  such a reversed text. Both serve the proofs about \<open>extname\<close>.
\<close>

fun extnameScan :: "string \<Rightarrow> ExtState \<Rightarrow> ExtState" where
  "extnameScan [] st = st"
| "extnameScan (c # r) st =
     (if c = CHR ''/'' then
        (if \<not> matchedSlash st then st\<lparr>startPart := int (length r) + 1\<rparr>
         else extnameScan r st)
      else
        (let st1 = (if endPos st = -1 then st\<lparr>matchedSlash := False, endPos := int (length r) + 1\<rparr>
                    else st);
             st2 = (if c = CHR ''.'' then
                      (if startDot st1 = -1 then st1\<lparr>startDot := int (length r)\<rparr>
                       else if preDotState st1 \<noteq> 1 then st1\<lparr>preDotState := 1\<rparr>
                       else st1)
                    else if startDot st1 \<noteq> -1 then st1\<lparr>preDotState := -1\<rparr>
                    else st1)
         in extnameScan r st2))"

definition slashFree :: "string \<Rightarrow> string" where
  "slashFree r = takeWhile (\<lambda>c. c \<noteq> CHR ''/'') r"

section \<open>Properties of the matcher\<close>

lemma matchLoop_reads:
  "offsetOf signature + length (bytes signature) \<le> length buffer \<Longrightarrow>
   \<forall>k \<in> set reads. k < length buffer \<Longrightarrow>
   \<forall>k \<in> set (snd (matchLoop buffer signature i reads)). k < length buffer"
proof (induction buffer signature i reads rule: matchLoop.induct)
  case (1 buffer signature i reads)
  show ?case
  proof (cases "i < length (bytes signature)")
    case False
    then show ?thesis using "1.prems" by (simp add: matchLoop.simps [of buffer signature i])
  next
    case True
    let ?reads = "reads @ [offsetOf signature + i]"
    have inb: "\<forall>k \<in> set ?reads. k < length buffer"
      using True "1.prems" by auto
    show ?thesis
    proof (cases "jsBitAnd (jsNum (bufferAt buffer (offsetOf signature + i))) (maskAt signature i)
                    \<noteq> jsBitAnd (bytes signature ! i) (maskAt signature i)")
      case differ: True
      then show ?thesis
        using True inb by (simp add: matchLoop.simps [of buffer signature i] Let_def)
    next
      case same: False
      have "\<forall>k \<in> set (snd (matchLoop buffer signature (i + 1) ?reads)). k < length buffer"
        using "1.IH" [OF True refl refl refl refl] same "1.prems"(1) inb by blast
      then show ?thesis
        using True same by (simp add: matchLoop.simps [of buffer signature i] Let_def)
    qed
  qed
qed

lemma matchLoop_fst:
  "offsetOf signature + length (bytes signature) \<le> length buffer \<Longrightarrow>
   fst (matchLoop buffer signature i reads)
     = (\<forall>j. i \<le> j \<and> j < length (bytes signature) \<longrightarrow> positionAgrees buffer signature j)"
proof (induction buffer signature i reads rule: matchLoop.induct)
  case (1 buffer signature i reads)
  show ?case
  proof (cases "i < length (bytes signature)")
    case False
    then have "\<forall>j. i \<le> j \<and> j < length (bytes signature) \<longrightarrow> positionAgrees buffer signature j"
      by auto
    then show ?thesis using False by (simp add: matchLoop.simps [of buffer signature i])
  next
    case True
    have rd: "jsNum (bufferAt buffer (offsetOf signature + i))
                = uint (buffer ! (offsetOf signature + i))"
      using True "1.prems" by (simp add: bufferAt_def jsNum_def)
    show ?thesis
    proof (cases "positionAgrees buffer signature i")
      case False
      then have "fst (matchLoop buffer signature i reads) = False"
        using True rd
        by (simp add: matchLoop.simps [of buffer signature i] Let_def positionAgrees_def)
      moreover have "\<not> (\<forall>j. i \<le> j \<and> j < length (bytes signature)
                          \<longrightarrow> positionAgrees buffer signature j)"
        using False True by auto
      ultimately show ?thesis by simp
    next
      case agree: True
      then have same: "\<not> jsBitAnd (jsNum (bufferAt buffer (offsetOf signature + i)))
                            (maskAt signature i)
                          \<noteq> jsBitAnd (bytes signature ! i) (maskAt signature i)"
        using rd by (simp add: positionAgrees_def)
      have step: "fst (matchLoop buffer signature i reads)
                    = fst (matchLoop buffer signature (i + 1) (reads @ [offsetOf signature + i]))"
        using True same by (simp add: matchLoop.simps [of buffer signature i] Let_def)
      have ih: "fst (matchLoop buffer signature (i + 1) (reads @ [offsetOf signature + i]))
                  = (\<forall>j. i + 1 \<le> j \<and> j < length (bytes signature)
                          \<longrightarrow> positionAgrees buffer signature j)"
        using "1.IH" [OF True refl refl refl refl same "1.prems"] .
      have "(\<forall>j. i + 1 \<le> j \<and> j < length (bytes signature) \<longrightarrow> positionAgrees buffer signature j)
              = (\<forall>j. i \<le> j \<and> j < length (bytes signature) \<longrightarrow> positionAgrees buffer signature j)"
      proof
        assume h: "\<forall>j. i + 1 \<le> j \<and> j < length (bytes signature)
                      \<longrightarrow> positionAgrees buffer signature j"
        show "\<forall>j. i \<le> j \<and> j < length (bytes signature) \<longrightarrow> positionAgrees buffer signature j"
        proof (intro allI impI)
          fix j assume j: "i \<le> j \<and> j < length (bytes signature)"
          show "positionAgrees buffer signature j"
          proof (cases "j = i")
            case True then show ?thesis using agree by simp
          next
            case False then show ?thesis using h j by simp
          qed
        qed
      next
        assume "\<forall>j. i \<le> j \<and> j < length (bytes signature) \<longrightarrow> positionAgrees buffer signature j"
        then show "\<forall>j. i + 1 \<le> j \<and> j < length (bytes signature)
                      \<longrightarrow> positionAgrees buffer signature j"
          by simp
      qed
      then show ?thesis using step ih by simp
    qed
  qed
qed

lemma signatureMatches_iff:
  "signatureMatches buffer signature =
     (offsetOf signature + length (bytes signature) \<le> length buffer \<and>
      (\<forall>i < length (bytes signature). positionAgrees buffer signature i))"
proof (cases "length buffer < offsetOf signature + length (bytes signature)")
  case True
  then show ?thesis by (simp add: signatureMatches_def checkSignature_def)
next
  case False
  then have le: "offsetOf signature + length (bytes signature) \<le> length buffer" by simp
  show ?thesis
    using False le matchLoop_fst [OF le, of 0 "[]"]
    by (simp add: signatureMatches_def checkSignature_def)
qed

lemma checkSignatures_find:
  "checkSignatures buffer mt sigs =
     map_option fst (find (\<lambda>(m, s). signatureMatches buffer s) (map (\<lambda>s. (mt, s)) sigs))"
  by (induction sigs) simp_all

lemma find_append_cases:
  "find P (xs @ ys) = (case find P xs of Some x \<Rightarrow> Some x | None \<Rightarrow> find P ys)"
  by (induction xs) simp_all

lemma checkTypes_find:
  "checkTypes buffer table =
     map_option fst (find (\<lambda>(m, s). signatureMatches buffer s) (declarationOrder table))"
proof (induction table)
  case Nil
  show ?case by (simp add: declarationOrder_def)
next
  case (Cons type rest)
  have split: "declarationOrder (type # rest)
                 = map (\<lambda>s. (mimeType type, s)) (signatures type) @ declarationOrder rest"
    by (simp add: declarationOrder_def)
  show ?case
    using Cons.IH
    by (simp add: split find_append_cases checkSignatures_find split: option.splits)
qed

text \<open>
  C2. A signature is skipped, and no byte of the buffer is read for it, when the buffer
  is shorter than offset plus signature length; and for every buffer and every signature
  each index the matcher reads lies inside the buffer.
\<close>

theorem C2_short_buffer_no_match_no_oob:
  "(length buffer < offsetOf signature + length (bytes signature) \<longrightarrow>
      \<not> signatureMatches buffer signature \<and> signatureReads buffer signature = []) \<and>
   (\<forall>k \<in> set (signatureReads buffer signature). k < length buffer)"
proof (cases "length buffer < offsetOf signature + length (bytes signature)")
  case True
  then show ?thesis
    by (simp add: signatureMatches_def signatureReads_def checkSignature_def)
next
  case False
  then have le: "offsetOf signature + length (bytes signature) \<le> length buffer" by simp
  have "\<forall>k \<in> set (snd (matchLoop buffer signature 0 [])). k < length buffer"
    by (rule matchLoop_reads [OF le]) simp
  then show ?thesis
    using False by (simp add: signatureReads_def checkSignature_def)
qed

theorem C2_short_buffer_witness:
  "length [0x25, 0x50 :: 8 word]
     < offsetOf (sig0 [0x25, 0x50, 0x44, 0x46]) + length (bytes (sig0 [0x25, 0x50, 0x44, 0x46])) \<and>
   \<not> signatureMatches [0x25, 0x50] (sig0 [0x25, 0x50, 0x44, 0x46]) \<and>
   signatureReads [0x25, 0x50] (sig0 [0x25, 0x50, 0x44, 0x46]) = [] \<and>
   signatureReads [0x25, 0x51, 0, 0] (sig0 [0x25, 0x50, 0x44, 0x46]) = [0, 1] \<and>
   list_all (\<lambda>k. k < length [0x25, 0x51, 0, 0 :: 8 word])
     (signatureReads [0x25, 0x51, 0, 0] (sig0 [0x25, 0x50, 0x44, 0x46]))"
proof -
  have short: "length [0x25, 0x50 :: 8 word]
     < offsetOf (sig0 [0x25, 0x50, 0x44, 0x46]) + length (bytes (sig0 [0x25, 0x50, 0x44, 0x46]))"
    by (simp add: offsetOf_def sig0_def)
  have rd: "signatureReads [0x25, 0x51, 0, 0] (sig0 [0x25, 0x50, 0x44, 0x46]) = [0, 1]"
    by code_simp
  have skip: "\<not> signatureMatches [0x25, 0x50] (sig0 [0x25, 0x50, 0x44, 0x46]) \<and>
      signatureReads [0x25, 0x50] (sig0 [0x25, 0x50, 0x44, 0x46]) = []"
    using C2_short_buffer_no_match_no_oob [of "[0x25, 0x50]" "sig0 [0x25, 0x50, 0x44, 0x46]"]
      short by blast
  have inb: "list_all (\<lambda>k. k < length [0x25, 0x51, 0, 0 :: 8 word])
     (signatureReads [0x25, 0x51, 0, 0] (sig0 [0x25, 0x50, 0x44, 0x46]))"
    unfolding list_all_iff
    by (rule conjunct2 [OF C2_short_buffer_no_match_no_oob])
  show ?thesis using short rd skip inb by blast
qed

lemma jsBitAnd_int: "jsBitAnd a b = signed_take_bit 31 (a AND b)"
  unfolding jsBitAnd_def
  by (simp add: sint_sbintrunc' flip: of_int_and_eq)

lemma jsBitAnd_byte_mask:
  assumes "0 \<le> m" "m \<le> 0xff"
  shows "jsBitAnd a m = a AND m"
proof -
  have lo: "0 \<le> a AND m" using assms(1) by simp
  have "a AND m \<le> m" using assms(1) by (rule AND_upper2)
  then have hi: "a AND m < 2 ^ 31" using assms(2) by simp
  have "- (2 ^ 31) \<le> (0 :: int)" by simp
  then have "- (2 ^ 31) \<le> a AND m" using lo by (rule order_trans)
  then have "signed_take_bit 31 (a AND m) = a AND m"
    using hi by (intro signed_take_bit_int_eq_self) simp_all
  then show ?thesis by (simp add: jsBitAnd_int)
qed

lemma maskAt_wellFormed:
  assumes "maskWellFormed signature" "i < length (bytes signature)"
  shows "maskAt signature i = specMaskAt signature i"
    and "0 \<le> specMaskAt signature i" and "specMaskAt signature i \<le> 0xff"
proof -
  show "maskAt signature i = specMaskAt signature i"
    using assms
    by (cases "maskArr signature")
       (simp_all add: maskAt_def specMaskAt_def maskWellFormed_def arrayAt_def jsNum_def)
  have "0 \<le> specMaskAt signature i \<and> specMaskAt signature i \<le> 0xff"
  proof (cases "maskArr signature")
    case None
    then show ?thesis by (simp add: specMaskAt_def)
  next
    case (Some m)
    then have "length m = length (bytes signature)" and all: "\<forall>x \<in> set m. 0 \<le> x \<and> x \<le> 0xff"
      using assms(1) by (simp_all add: maskWellFormed_def list_all_iff)
    then have "m ! i \<in> set m" using assms(2) by simp
    then show ?thesis using all Some by (simp add: specMaskAt_def)
  qed
  then show "0 \<le> specMaskAt signature i" and "specMaskAt signature i \<le> 0xff" by simp_all
qed

lemma positionAgrees_maskedEqual:
  assumes "maskWellFormed signature" "i < length (bytes signature)"
  shows "positionAgrees buffer signature i = maskedEqual buffer signature i"
proof -
  note m = maskAt_wellFormed [OF assms]
  show ?thesis
    unfolding positionAgrees_def maskedEqual_def m(1)
    by (simp add: jsBitAnd_byte_mask [OF m(2) m(3)] offsetOf_def specOffset_def)
qed

text \<open>
  C6. With a buffer long enough for the signature (at least offset plus signature length,
  the offset being 0 when absent), a signature whose mask is absent or well formed matches
  exactly when every position \<open>i\<close> satisfies
  \<open>(buffer[offset+i] & mask[i]) = (bytes[i] & mask[i])\<close>, where \<open>&\<close> is the bitwise "and"
  of the integers and \<open>mask[i]\<close> is \<open>0xFF\<close> at every position when the signature has no
  mask; for any signature it matches exactly when every position agrees under the
  operator \<open>&\<close> of the code; and for every table, the built-in one in particular, the
  matcher returns the MIME type of the first matching signature in group-then-signature
  declaration order, or nothing when there is none.
\<close>

theorem C6_match_decision:
  "(specOffset signature + length (bytes signature) \<le> length buffer \<and> maskWellFormed signature
      \<longrightarrow> signatureMatches buffer signature
            = (\<forall>i < length (bytes signature). maskedEqual buffer signature i)) \<and>
   (maskArr signature = None \<longrightarrow> (\<forall>i. specMaskAt signature i = 0xff)) \<and>
   (offsetOf signature + length (bytes signature) \<le> length buffer \<longrightarrow>
      signatureMatches buffer signature
        = (\<forall>i < length (bytes signature). positionAgrees buffer signature i)) \<and>
   (maskArr signature = None \<longrightarrow> (\<forall>i. maskAt signature i = 0xff)) \<and>
   checkTypes buffer table
     = map_option fst (find (\<lambda>(m, s). signatureMatches buffer s) (declarationOrder table)) \<and>
   checkMagicBytes buffer
     = map_option fst (find (\<lambda>(m, s). signatureMatches buffer s) (declarationOrder magicBytes))"
proof (intro conjI impI)
  assume h: "specOffset signature + length (bytes signature) \<le> length buffer
               \<and> maskWellFormed signature"
  then have le: "offsetOf signature + length (bytes signature) \<le> length buffer"
    by (simp add: offsetOf_def specOffset_def)
  have "(\<forall>i < length (bytes signature). positionAgrees buffer signature i)
          = (\<forall>i < length (bytes signature). maskedEqual buffer signature i)"
    using positionAgrees_maskedEqual [of signature _ buffer] h by blast
  then show "signatureMatches buffer signature
            = (\<forall>i < length (bytes signature). maskedEqual buffer signature i)"
    using le by (simp add: signatureMatches_iff)
next
  assume "maskArr signature = None"
  then show "\<forall>i. specMaskAt signature i = 0xff" by (simp add: specMaskAt_def)
next
  assume "offsetOf signature + length (bytes signature) \<le> length buffer"
  then show "signatureMatches buffer signature
        = (\<forall>i < length (bytes signature). positionAgrees buffer signature i)"
    by (simp add: signatureMatches_iff)
next
  assume "maskArr signature = None"
  then show "\<forall>i. maskAt signature i = 0xff" by (simp add: maskAt_def)
next
  show "checkTypes buffer table
     = map_option fst (find (\<lambda>(m, s). signatureMatches buffer s) (declarationOrder table))"
    by (rule checkTypes_find)
next
  show "checkMagicBytes buffer
     = map_option fst (find (\<lambda>(m, s). signatureMatches buffer s) (declarationOrder magicBytes))"
    unfolding checkMagicBytes_def by (rule checkTypes_find)
qed

theorem C6_match_decision_witness:
  "specOffset maskedSignature + length (bytes maskedSignature) \<le> length [0x00, 0x8a, 0x01 :: 8 word] \<and>
   maskWellFormed maskedSignature \<and>
   maskedEqual [0x00, 0x8a, 0x01] maskedSignature 0 \<and>
   maskedEqual [0x00, 0x8a, 0x01] maskedSignature 1 \<and>
   signatureMatches [0x00, 0x8a, 0x01] maskedSignature \<and>
   \<not> maskedEqual [0x00, 0x7a, 0x01] maskedSignature 0 \<and>
   \<not> signatureMatches [0x00, 0x7a, 0x01] maskedSignature \<and>
   \<not> maskedEqual [0x8a, 0x01, 0x00] maskedSignature 0 \<and>
   \<not> signatureMatches [0x8a, 0x01, 0x00] maskedSignature \<and>
   checkTypes [0x00, 0x8a, 0x01] maskedTable = Some ''application/x-masked'' \<and>
   maskArr (sig0 [0xff, 0xfb]) = None \<and>
   (\<forall>i. specMaskAt (sig0 [0xff, 0xfb]) i = 0xff) \<and>
   signatureMatches [0xff, 0xfb, 0x90] (sig0 [0xff, 0xfb]) \<and>
   \<not> signatureMatches [0xff, 0xfa, 0x90] (sig0 [0xff, 0xfb]) \<and>
   checkMagicBytes [0xff, 0xfb, 0x90] = Some ''audio/mpeg''"
proof -
  note inst = C6_match_decision [of maskedSignature "[0x00, 0x8a, 0x01]" maskedTable]
  note inst7 = C6_match_decision [of maskedSignature "[0x00, 0x7a, 0x01]" maskedTable]
  note insts = C6_match_decision [of maskedSignature "[0x8a, 0x01, 0x00]" maskedTable]
  note inst0 = C6_match_decision [of "sig0 [0xff, 0xfb]" "[0xff, 0xfb, 0x90]" maskedTable]
  note insta = C6_match_decision [of "sig0 [0xff, 0xfb]" "[0xff, 0xfa, 0x90]" maskedTable]
  have two: "length (bytes maskedSignature) = 2" by (simp add: maskedSignature_def)
  have lt2: "(\<forall>i<2. P i) = (P 0 \<and> P (Suc 0))" for P :: "nat \<Rightarrow> bool"
    by (auto simp: less_Suc_eq numeral_2_eq_2)
  have len: "specOffset maskedSignature + length (bytes maskedSignature)
               \<le> length [0x00, 0x8a, 0x01 :: 8 word]"
    by (simp add: specOffset_def maskedSignature_def)
  have len7: "specOffset maskedSignature + length (bytes maskedSignature)
               \<le> length [0x00, 0x7a, 0x01 :: 8 word]"
    by (simp add: specOffset_def maskedSignature_def)
  have lens: "specOffset maskedSignature + length (bytes maskedSignature)
               \<le> length [0x8a, 0x01, 0x00 :: 8 word]"
    by (simp add: specOffset_def maskedSignature_def)
  have wf: "maskWellFormed maskedSignature" by code_simp
  have e0: "maskedEqual [0x00, 0x8a, 0x01] maskedSignature 0" by code_simp
  have e1: "maskedEqual [0x00, 0x8a, 0x01] maskedSignature 1" by code_simp
  have m: "signatureMatches [0x00, 0x8a, 0x01] maskedSignature"
    using inst len wf e0 e1 unfolding two lt2 by simp
  have n0: "\<not> maskedEqual [0x00, 0x7a, 0x01] maskedSignature 0" by code_simp
  have nm: "\<not> signatureMatches [0x00, 0x7a, 0x01] maskedSignature"
    using inst7 len7 wf n0 unfolding two lt2 by simp
  have s0: "\<not> maskedEqual [0x8a, 0x01, 0x00] maskedSignature 0" by code_simp
  have sm: "\<not> signatureMatches [0x8a, 0x01, 0x00] maskedSignature"
    using insts lens wf s0 unfolding two lt2 by simp
  have pdf: "\<not> signatureMatches [0x00, 0x8a, 0x01] (sig0 [0x25, 0x50, 0x44, 0x46])"
    by (simp add: signatureMatches_iff offsetOf_def sig0_def)
  have fnd: "find (\<lambda>(m, s). signatureMatches [0x00, 0x8a, 0x01] s) (declarationOrder maskedTable)
               = Some (''application/x-masked'', maskedSignature)"
    using pdf m by (simp add: declarationOrder_def maskedTable_def)
  have tbl: "checkTypes [0x00, 0x8a, 0x01] maskedTable = Some ''application/x-masked''"
    using inst fnd by simp
  have nomask: "maskArr (sig0 [0xff, 0xfb]) = None" by (simp add: sig0_def)
  have msk: "\<forall>i. specMaskAt (sig0 [0xff, 0xfb]) i = 0xff"
    using inst0 nomask by blast
  have len0: "specOffset (sig0 [0xff, 0xfb]) + length (bytes (sig0 [0xff, 0xfb]))
               \<le> length [0xff, 0xfb, 0x90 :: 8 word]"
    by (simp add: specOffset_def sig0_def)
  have lena: "specOffset (sig0 [0xff, 0xfb]) + length (bytes (sig0 [0xff, 0xfb]))
               \<le> length [0xff, 0xfa, 0x90 :: 8 word]"
    by (simp add: specOffset_def sig0_def)
  have wf0: "maskWellFormed (sig0 [0xff, 0xfb])" by code_simp
  have two0: "length (bytes (sig0 [0xff, 0xfb])) = 2" by (simp add: sig0_def)
  have q0: "maskedEqual [0xff, 0xfb, 0x90] (sig0 [0xff, 0xfb]) 0" by code_simp
  have q1: "maskedEqual [0xff, 0xfb, 0x90] (sig0 [0xff, 0xfb]) 1" by code_simp
  have m0: "signatureMatches [0xff, 0xfb, 0x90] (sig0 [0xff, 0xfb])"
    using inst0 len0 wf0 q0 q1 unfolding two0 lt2 by simp
  have a1: "\<not> maskedEqual [0xff, 0xfa, 0x90] (sig0 [0xff, 0xfb]) 1" by code_simp
  have ma: "\<not> signatureMatches [0xff, 0xfa, 0x90] (sig0 [0xff, 0xfb])"
    using insta lena wf0 a1 unfolding two0 lt2 by simp
  have "find (\<lambda>(m, s). signatureMatches [0xff, 0xfb, 0x90] s) (declarationOrder magicBytes)
          = Some (''audio/mpeg'', sig0 [0xff, 0xfb])"
    by code_simp
  then have c: "checkMagicBytes [0xff, 0xfb, 0x90] = Some ''audio/mpeg''"
    using inst0 by simp
  show ?thesis using len wf e0 e1 m n0 nm s0 sm tbl nomask msk m0 ma c by blast
qed

section \<open>Properties of the resolver\<close>

lemma checkSignatures_mime: "checkSignatures buffer mt sigs = Some r \<Longrightarrow> r = mt"
  by (induction sigs) (auto split: if_splits)

lemma checkTypes_mime:
  "checkTypes buffer table = Some r \<Longrightarrow> r \<in> mimeType ` set table"
  by (induction table) (auto split: option.splits dest: checkSignatures_mime)

lemma checkMagicBytes_nonempty: "checkMagicBytes buffer = Some r \<Longrightarrow> r \<noteq> []"
proof -
  assume "checkMagicBytes buffer = Some r"
  then have "r \<in> mimeType ` set magicBytes"
    unfolding checkMagicBytes_def by (rule checkTypes_mime)
  then show "r \<noteq> []" by (auto simp: magicBytes_def)
qed

text \<open>
  C5. When the bytes were acquired and the matcher returns a MIME type for them,
  \<open>getMimeType\<close> returns that MIME type, whatever the extension table holds; a file
  \<open>a.txt\<close> beginning \<open>FF D8 FF E0\<close> resolves to \<open>image/jpeg\<close>.
\<close>

theorem C5_signature_overrides_extension:
  "acquire world filePathOrUrl = Inr buffer \<Longrightarrow> checkMagicBytes buffer = Some mt \<Longrightarrow>
   getMimeType world filePathOrUrl = JString mt \<and>
   (\<forall>table. getMimeTypeWith table world filePathOrUrl = JString mt)"
  using checkMagicBytes_nonempty [of buffer mt]
  by (simp add: getMimeType_def getMimeTypeWith_def truthy_def)

theorem C5_signature_overrides_extension_witness:
  "acquire (singleFileWorld ''a.txt'' [0xff, 0xd8, 0xff, 0xe0, 0x00, 0x10]) ''a.txt''
     = Inr [0xff, 0xd8, 0xff, 0xe0, 0x00, 0x10, 0, 0, 0, 0, 0, 0] \<and>
   checkMagicBytes [0xff, 0xd8, 0xff, 0xe0, 0x00, 0x10, 0, 0, 0, 0, 0, 0] = Some ''image/jpeg'' \<and>
   mimeTypesGet (derivedExtension (singleFileWorld ''a.txt'' [0xff, 0xd8, 0xff, 0xe0, 0x00, 0x10])
                                   ''a.txt'') = Some (JString ''text/plain'') \<and>
   getMimeType (singleFileWorld ''a.txt'' [0xff, 0xd8, 0xff, 0xe0, 0x00, 0x10]) ''a.txt''
     = JString ''image/jpeg''"
proof -
  have a: "acquire (singleFileWorld ''a.txt'' [0xff, 0xd8, 0xff, 0xe0, 0x00, 0x10]) ''a.txt''
     = Inr [0xff, 0xd8, 0xff, 0xe0, 0x00, 0x10, 0, 0, 0, 0, 0, 0]"
    by code_simp
  have c: "checkMagicBytes [0xff, 0xd8, 0xff, 0xe0, 0x00, 0x10, 0, 0, 0, 0, 0, 0]
     = Some ''image/jpeg''"
    by code_simp
  have e: "mimeTypesGet (derivedExtension (singleFileWorld ''a.txt'' [0xff, 0xd8, 0xff, 0xe0, 0x00, 0x10])
                                   ''a.txt'') = Some (JString ''text/plain'')"
    by code_simp
  have r: "getMimeType (singleFileWorld ''a.txt'' [0xff, 0xd8, 0xff, 0xe0, 0x00, 0x10]) ''a.txt''
     = JString ''image/jpeg''"
    by (rule conjunct1 [OF C5_signature_overrides_extension [OF a c]])
  show ?thesis using a c e r by blast
qed

text \<open>
  What the fallback yields for every extension that is not the name of a member of
  \<open>Object.prototype\<close>: the table's value, or the default.
\<close>

lemma mimeTypes_values_nonempty: "list_all (\<lambda>(e, m). m \<noteq> []) mimeTypes"
  by code_simp

lemma extensionFallback_own_or_default:
  assumes "derivedExtension world filePathOrUrl \<notin> set objectPrototypeMembers"
  shows "extensionFallback mimeTypesGet world filePathOrUrl =
           JString (case map_of mimeTypes (derivedExtension world filePathOrUrl) of
                      Some v \<Rightarrow> v | None \<Rightarrow> ''application/octet-stream'')"
proof (cases "map_of mimeTypes (derivedExtension world filePathOrUrl)")
  case None
  have "derivedExtension world filePathOrUrl \<noteq> ''constructor''"
       "derivedExtension world filePathOrUrl \<noteq> ''__proto__''"
    using assms by (auto simp: objectPrototypeMembers_def)
  then show ?thesis
    using None assms
    by (simp add: extensionFallback_def mimeTypesGet_def objectPrototypeGet_def)
next
  case (Some v)
  then have "(derivedExtension world filePathOrUrl, v) \<in> set mimeTypes" by (rule map_of_SomeD)
  then have "v \<noteq> []"
    using mimeTypes_values_nonempty unfolding list_all_iff by auto
  then show ?thesis
    using Some by (simp add: extensionFallback_def mimeTypesGet_def truthy_def)
qed

lemma getMimeType_acquisition_failure:
  "acquire world filePathOrUrl = Inl e \<Longrightarrow>
   getMimeType world filePathOrUrl = extensionFallback mimeTypesGet world filePathOrUrl"
  by (simp add: getMimeType_def getMimeTypeWith_def)

lemma getMimeType_no_signature:
  "acquire world filePathOrUrl = Inr buffer \<Longrightarrow> checkMagicBytes buffer = None \<Longrightarrow>
   getMimeType world filePathOrUrl = extensionFallback mimeTypesGet world filePathOrUrl"
  by (simp add: getMimeType_def getMimeTypeWith_def)

lemma getMimeType_string_unless_inherited:
  assumes "derivedExtension world filePathOrUrl \<notin> set objectPrototypeMembers"
  shows "\<exists>mt. getMimeType world filePathOrUrl = JString mt \<and> mt \<noteq> []"
proof -
  have fb: "\<exists>mt. extensionFallback mimeTypesGet world filePathOrUrl = JString mt \<and> mt \<noteq> []"
  proof (cases "map_of mimeTypes (derivedExtension world filePathOrUrl)")
    case None
    then show ?thesis using extensionFallback_own_or_default [OF assms] by simp
  next
    case (Some v)
    then have "(derivedExtension world filePathOrUrl, v) \<in> set mimeTypes" by (rule map_of_SomeD)
    then have "v \<noteq> []"
      using mimeTypes_values_nonempty unfolding list_all_iff by auto
    then show ?thesis using Some extensionFallback_own_or_default [OF assms] by simp
  qed
  show ?thesis
  proof (cases "acquire world filePathOrUrl")
    case (Inl e)
    then show ?thesis using fb getMimeType_acquisition_failure by simp
  next
    case (Inr buffer)
    show ?thesis
    proof (cases "checkMagicBytes buffer")
      case None
      then show ?thesis using fb getMimeType_no_signature [OF Inr] by simp
    next
      case (Some mt)
      then have "mt \<noteq> []" by (rule checkMagicBytes_nonempty)
      then show ?thesis
        using Inr Some by (simp add: getMimeType_def getMimeTypeWith_def truthy_def)
    qed
  qed
qed

text \<open>
  C3. The claim that \<open>getMimeType\<close> always yields a non-empty MIME type string, and
  exactly \<open>application/octet-stream\<close> when no signature matches and the extension is
  not a key of the extension table, evaluated at a readable file \<open>notes.constructor\<close>
  whose content matches no signature: the result is the inherited member
  \<open>constructor\<close> of the table object, not a string, and \<open>isDocument\<close> throws on it.
\<close>

theorem C3_inherited_member_returned:
  "acquire (singleFileWorld ''notes.constructor'' [0x68, 0x69]) ''notes.constructor''
     = Inr [0x68, 0x69, 0, 0, 0, 0, 0, 0, 0, 0, 0, 0] \<and>
   checkMagicBytes [0x68, 0x69, 0, 0, 0, 0, 0, 0, 0, 0, 0, 0] = None \<and>
   derivedExtension (singleFileWorld ''notes.constructor'' [0x68, 0x69]) ''notes.constructor''
     = ''constructor'' \<and>
   map_of mimeTypes ''constructor'' = None \<and>
   getMimeType (singleFileWorld ''notes.constructor'' [0x68, 0x69]) ''notes.constructor''
     = JBuiltin ''Object'' \<and>
   isDocument (singleFileWorld ''notes.constructor'' [0x68, 0x69]) ''notes.constructor''
     = Inl TypeError"
  by code_simp

text \<open>
  C4. The claim that a failed acquisition yields the table's value for the derived
  extension, and otherwise \<open>application/octet-stream\<close>, evaluated at the missing file
  \<open>x.constructor\<close>: the extension is not a key of the table, and the result is the
  inherited member \<open>constructor\<close> of the table object.
\<close>

theorem C4_fallback_inherited_member:
  "acquire (singleFileWorld ''a.txt'' []) ''x.constructor'' = Inl (IOError ''ENOENT'') \<and>
   derivedExtension (singleFileWorld ''a.txt'' []) ''x.constructor'' = ''constructor'' \<and>
   map_of mimeTypes ''constructor'' = None \<and>
   getMimeType (singleFileWorld ''a.txt'' []) ''x.constructor'' = JBuiltin ''Object''"
  by code_simp

text \<open>
  C8, as the specification states it, fails on a two-byte file: the buffer handed to the
  matcher has twelve bytes, not two.
\<close>

theorem C8_short_file_counterexample:
  "acquire (singleFileWorld ''short.bin'' [0xff, 0xfb]) ''short.bin''
      = Inr [0xff, 0xfb, 0, 0, 0, 0, 0, 0, 0, 0, 0, 0] \<and>
   length [0xff, 0xfb, 0, 0, 0, 0, 0, 0, 0, 0, 0, 0 :: 8 word] \<noteq> length [0xff, 0xfb :: 8 word]"
  by code_simp

text \<open>
  C8, amended. For a local path whose file opens, reads and closes without error, the
  acquired buffer always has exactly twelve bytes: the first twelve bytes of the file, or
  all of the file followed by zero bytes when it is shorter. A short read does not throw.
\<close>

theorem C8_local_buffer_zero_padded:
  "\<not> startsWith filePathOrUrl ''http://'' \<Longrightarrow> \<not> startsWith filePathOrUrl ''https://'' \<Longrightarrow>
   openSync world filePathOrUrl = Inr fd \<Longrightarrow> fileData world fd = Inr content \<Longrightarrow>
   closeSync world fd = None \<Longrightarrow>
   acquire world filePathOrUrl = Inr (take 12 content @ replicate (12 - length content) 0) \<and>
   length (take 12 content @ replicate (12 - length content) (0 :: 8 word)) = 12"
  by (auto simp: acquire_def readSync_def Buffer_alloc_def Let_def min_def)

theorem C8_local_buffer_zero_padded_witness:
  "\<not> startsWith ''short.bin'' ''http://'' \<and> \<not> startsWith ''short.bin'' ''https://'' \<and>
   openSync (singleFileWorld ''short.bin'' [0xff, 0xfb]) ''short.bin'' = Inr 3 \<and>
   fileData (singleFileWorld ''short.bin'' [0xff, 0xfb]) 3 = Inr [0xff, 0xfb] \<and>
   closeSync (singleFileWorld ''short.bin'' [0xff, 0xfb]) 3 = None \<and>
   acquire (singleFileWorld ''short.bin'' [0xff, 0xfb]) ''short.bin''
     = Inr (take 12 [0xff, 0xfb] @ replicate (12 - length [0xff, 0xfb :: 8 word]) 0)"
proof -
  have h1: "\<not> startsWith ''short.bin'' ''http://''" by (simp add: startsWith_def)
  have h2: "\<not> startsWith ''short.bin'' ''https://''" by (simp add: startsWith_def)
  have h3: "openSync (singleFileWorld ''short.bin'' [0xff, 0xfb]) ''short.bin'' = Inr 3"
    by (simp add: singleFileWorld_def)
  have h4: "fileData (singleFileWorld ''short.bin'' [0xff, 0xfb]) 3 = Inr [0xff, 0xfb]"
    by (simp add: singleFileWorld_def)
  have h5: "closeSync (singleFileWorld ''short.bin'' [0xff, 0xfb]) 3 = None"
    by (simp add: singleFileWorld_def)
  have r: "acquire (singleFileWorld ''short.bin'' [0xff, 0xfb]) ''short.bin''
     = Inr (take 12 [0xff, 0xfb] @ replicate (12 - length [0xff, 0xfb :: 8 word]) 0)"
    by (rule conjunct1 [OF C8_local_buffer_zero_padded [OF h1 h2 h3 h4 h5]])
  show ?thesis using h1 h2 h3 h4 h5 r by blast
qed

section \<open>Properties of getMimeExtension and the category predicates\<close>

lemma sampleToLowerCase_ascii: "isAscii s \<Longrightarrow> sampleToLowerCase s = asciiLowerCase s"
proof (induction s)
  case Nil
  show ?case by (simp add: asciiLowerCase_def)
next
  case (Cons c r)
  then have c: "(of_char c :: nat) < 128" and r: "isAscii r" by (simp_all add: isAscii_def)
  have "c \<noteq> CHR 0xC3" "c \<noteq> CHR 0xE2" using c by auto
  then show ?case using Cons.IH [OF r] by (simp add: asciiLowerCase_def)
qed

lemma sampleToLowerCase_dot:
  "sampleToLowerCase (CHR ''.'' # s) = CHR ''.'' # sampleToLowerCase s"
  by (simp add: asciiLowerChar_def)

lemma sampleWorld_lower: "toLowerCase sampleWorld = sampleToLowerCase"
  by (simp add: sampleWorld_def)

lemma mimeTypes_lower: "list_all (\<lambda>(e, m). isAscii m \<and> asciiLowerCase m = m) mimeTypes"
  by code_simp

lemma mimeTypes_keys_distinct: "distinct (map fst mimeTypes)"
  by code_simp

lemma find_lower:
  assumes "\<And>s. isAscii s \<Longrightarrow> toLowerCase world s = asciiLowerCase s"
  shows "find (\<lambda>(ext, mime). toLowerCase world mime = n) mimeTypes
           = find (\<lambda>(ext, mime). mime = n) mimeTypes"
proof (rule find_cong [OF refl])
  fix x assume "x \<in> set mimeTypes"
  then have "isAscii (snd x) \<and> asciiLowerCase (snd x) = snd x"
    using mimeTypes_lower unfolding list_all_iff by auto
  then have "toLowerCase world (snd x) = snd x" using assms by simp
  then show "(case x of (ext, mime) \<Rightarrow> toLowerCase world mime = n)
               = (case x of (ext, mime) \<Rightarrow> mime = n)"
    by (cases x) simp
qed

lemma getMimeExtension_find:
  assumes "\<And>s. isAscii s \<Longrightarrow> toLowerCase world s = asciiLowerCase s"
  shows "getMimeExtension world mt =
     (case find (\<lambda>(ext, mime). mime = toLowerCase world mt) mimeTypes of
        Some (ext, mime) \<Rightarrow> Some (''.'' @ ext) | None \<Rightarrow> None)"
  by (simp add: getMimeExtension_def find_lower [OF assms] split: option.splits prod.splits)

lemma asciiLowerChar_code:
  "of_char (asciiLowerChar c) =
     (if 65 \<le> (of_char c :: nat) \<and> (of_char c :: nat) \<le> 90 then of_char c + 32
      else (of_char c :: nat))"
  by (simp add: asciiLowerChar_def)

text \<open>
  C9. Let the runtime's \<open>toLowerCase\<close> fold the ASCII letters on ASCII strings (upper-case
  letters, codes 65 to 90, go to the code plus 32; nothing else changes). Then for every
  entry \<open>e \<mapsto> m\<close> of the extension table \<open>getMimeExtension m\<close> returns an extension with a
  leading dot whose entry maps to \<open>m\<close> (and which the table lookup resolves to \<open>m\<close>); for
  every input the result is taken from the first entry in declaration order whose value
  equals the lower-cased input, so for an ASCII input from the first entry whose value is
  the input with its ASCII letters folded; \<open>getMimeExtension "image/jpeg"\<close> and
  \<open>getMimeExtension "IMAGE/JPEG"\<close> are \<open>.jpg\<close>; and the result is none when no entry has the
  lower-cased input as its value.
\<close>

theorem C9_getMimeExtension_first_match:
  assumes ascii: "\<And>s. isAscii s \<Longrightarrow> toLowerCase world s = asciiLowerCase s"
  shows
  "((e, m) \<in> set mimeTypes \<longrightarrow>
      (\<exists>e'. getMimeExtension world m = Some (''.'' @ e') \<and> (e', m) \<in> set mimeTypes \<and>
            mimeTypesGet e' = Some (JString m))) \<and>
   getMimeExtension world mt =
     (case find (\<lambda>(ext, mime). mime = toLowerCase world mt) mimeTypes of
        Some (ext, mime) \<Rightarrow> Some (''.'' @ ext) | None \<Rightarrow> None) \<and>
   (isAscii mt \<longrightarrow>
      getMimeExtension world mt =
        (case find (\<lambda>(ext, mime). mime = asciiLowerCase mt) mimeTypes of
           Some (ext, mime) \<Rightarrow> Some (''.'' @ ext) | None \<Rightarrow> None)) \<and>
   (\<forall>c. of_char (asciiLowerChar c) =
          (if 65 \<le> (of_char c :: nat) \<and> (of_char c :: nat) \<le> 90 then of_char c + 32
           else (of_char c :: nat))) \<and>
   asciiLowerCase ''ABCDEFGHIJKLMNOPQRSTUVWXYZ'' = ''abcdefghijklmnopqrstuvwxyz'' \<and>
   getMimeExtension world ''image/jpeg'' = Some ''.jpg'' \<and>
   getMimeExtension world ''IMAGE/JPEG'' = Some ''.jpg'' \<and>
   getMimeExtension world ''Video/QuickTime'' = Some ''.mov'' \<and>
   getMimeExtension world ''application/unknown'' = None \<and>
   (toLowerCase world mt \<notin> snd ` set mimeTypes \<longrightarrow> getMimeExtension world mt = None)"
proof (intro conjI impI)
  assume mem: "(e, m) \<in> set mimeTypes"
  then have "isAscii m \<and> asciiLowerCase m = m"
    using mimeTypes_lower unfolding list_all_iff by auto
  then have low: "toLowerCase world m = m" using ascii by simp
  have "find (\<lambda>(ext, mime). mime = m) mimeTypes \<noteq> None"
    using mem by (auto simp: find_None_iff)
  then obtain e' m' where f: "find (\<lambda>(ext, mime). mime = m) mimeTypes = Some (e', m')"
    by (cases "find (\<lambda>(ext, mime). mime = m) mimeTypes") auto
  then have m': "m' = m" and mem': "(e', m') \<in> set mimeTypes"
    by (auto simp: find_Some_iff in_set_conv_nth intro: exI)
  have "map_of mimeTypes e' = Some m"
    using mem' m' mimeTypes_keys_distinct by simp
  then have "mimeTypesGet e' = Some (JString m)" by (simp add: mimeTypesGet_def)
  moreover have "getMimeExtension world m = Some (''.'' @ e')"
    using f low by (simp add: getMimeExtension_find [OF ascii])
  ultimately show "\<exists>e'. getMimeExtension world m = Some (''.'' @ e') \<and>
            (e', m) \<in> set mimeTypes \<and> mimeTypesGet e' = Some (JString m)"
    using mem' m' by blast
next
  show "getMimeExtension world mt =
     (case find (\<lambda>(ext, mime). mime = toLowerCase world mt) mimeTypes of
        Some (ext, mime) \<Rightarrow> Some (''.'' @ ext) | None \<Rightarrow> None)"
    by (rule getMimeExtension_find [OF ascii])
next
  assume "isAscii mt"
  then have "toLowerCase world mt = asciiLowerCase mt" by (rule ascii)
  then show "getMimeExtension world mt =
        (case find (\<lambda>(ext, mime). mime = asciiLowerCase mt) mimeTypes of
           Some (ext, mime) \<Rightarrow> Some (''.'' @ ext) | None \<Rightarrow> None)"
    using getMimeExtension_find [OF ascii, of mt] by simp
next
  show "\<forall>c. of_char (asciiLowerChar c) =
          (if 65 \<le> (of_char c :: nat) \<and> (of_char c :: nat) \<le> 90 then of_char c + 32
           else (of_char c :: nat))"
    using asciiLowerChar_code by blast
next
  show "asciiLowerCase ''ABCDEFGHIJKLMNOPQRSTUVWXYZ'' = ''abcdefghijklmnopqrstuvwxyz''"
    by code_simp
next
  have a: "isAscii ''image/jpeg''" by code_simp
  have "(case find (\<lambda>(ext, mime). mime = asciiLowerCase ''image/jpeg'') mimeTypes of
           Some (ext, mime) \<Rightarrow> Some (''.'' @ ext) | None \<Rightarrow> None) = Some ''.jpg''"
    by code_simp
  then show "getMimeExtension world ''image/jpeg'' = Some ''.jpg''"
    using getMimeExtension_find [OF ascii, of "''image/jpeg''"] ascii [OF a] by simp
next
  have a: "isAscii ''IMAGE/JPEG''" by code_simp
  have "(case find (\<lambda>(ext, mime). mime = asciiLowerCase ''IMAGE/JPEG'') mimeTypes of
           Some (ext, mime) \<Rightarrow> Some (''.'' @ ext) | None \<Rightarrow> None) = Some ''.jpg''"
    by code_simp
  then show "getMimeExtension world ''IMAGE/JPEG'' = Some ''.jpg''"
    using getMimeExtension_find [OF ascii, of "''IMAGE/JPEG''"] ascii [OF a] by simp
next
  have a: "isAscii ''Video/QuickTime''" by code_simp
  have "(case find (\<lambda>(ext, mime). mime = asciiLowerCase ''Video/QuickTime'') mimeTypes of
           Some (ext, mime) \<Rightarrow> Some (''.'' @ ext) | None \<Rightarrow> None) = Some ''.mov''"
    by code_simp
  then show "getMimeExtension world ''Video/QuickTime'' = Some ''.mov''"
    using getMimeExtension_find [OF ascii, of "''Video/QuickTime''"] ascii [OF a] by simp
next
  have a: "isAscii ''application/unknown''" by code_simp
  have "(case find (\<lambda>(ext, mime). mime = asciiLowerCase ''application/unknown'') mimeTypes of
           Some (ext, mime) \<Rightarrow> Some (''.'' @ ext) | None \<Rightarrow> None) = None"
    by code_simp
  then show "getMimeExtension world ''application/unknown'' = None"
    using getMimeExtension_find [OF ascii, of "''application/unknown''"] ascii [OF a] by simp
next
  assume "toLowerCase world mt \<notin> snd ` set mimeTypes"
  then have "find (\<lambda>(ext, mime). mime = toLowerCase world mt) mimeTypes = None"
    by (force simp: find_None_iff)
  then show "getMimeExtension world mt = None" by (simp add: getMimeExtension_find [OF ascii])
qed

theorem C9_getMimeExtension_first_match_witness:
  "(\<forall>s. toLowerCase (singleFileWorld [] []) s = asciiLowerCase s) \<and>
   (''jpeg'', ''image/jpeg'') \<in> set mimeTypes \<and>
   (\<exists>e'. getMimeExtension (singleFileWorld [] []) ''image/jpeg'' = Some (''.'' @ e') \<and>
          (e', ''image/jpeg'') \<in> set mimeTypes \<and>
          mimeTypesGet e' = Some (JString ''image/jpeg'')) \<and>
   isAscii ''AUDIO/Mpeg'' \<and>
   asciiLowerCase ''AUDIO/Mpeg'' = ''audio/mpeg'' \<and>
   getMimeExtension (singleFileWorld [] []) ''AUDIO/Mpeg'' = Some ''.mp3'' \<and>
   getMimeExtension (singleFileWorld [] []) ''IMAGE/JPEG'' = Some ''.jpg'' \<and>
   toLowerCase (singleFileWorld [] []) ''text/html'' \<notin> snd ` set mimeTypes \<and>
   getMimeExtension (singleFileWorld [] []) ''text/html'' = None \<and>
   toLowerCase sampleWorld
     [CHR ''v'', CHR ''i'', CHR ''d'', CHR ''e'', CHR ''o'', CHR ''/'', CHR ''q'', CHR ''u'',
      CHR ''i'', CHR ''c'', CHR 0xE2, CHR 0x84, CHR 0xAA, CHR ''t'', CHR ''i'', CHR ''m'',
      CHR ''e''] = ''video/quicktime'' \<and>
   getMimeExtension sampleWorld
     [CHR ''v'', CHR ''i'', CHR ''d'', CHR ''e'', CHR ''o'', CHR ''/'', CHR ''q'', CHR ''u'',
      CHR ''i'', CHR ''c'', CHR 0xE2, CHR 0x84, CHR 0xAA, CHR ''t'', CHR ''i'', CHR ''m'',
      CHR ''e''] = Some ''.mov''"
proof -
  have sascii: "\<And>s. isAscii s \<Longrightarrow> toLowerCase sampleWorld s = asciiLowerCase s"
    by (simp add: sampleWorld_lower sampleToLowerCase_ascii)
  note inst3 = C9_getMimeExtension_first_match [OF sascii, of "''jpeg''" "''image/jpeg''"
      "[CHR ''v'', CHR ''i'', CHR ''d'', CHR ''e'', CHR ''o'', CHR ''/'', CHR ''q'', CHR ''u'',
        CHR ''i'', CHR ''c'', CHR 0xE2, CHR 0x84, CHR 0xAA, CHR ''t'', CHR ''i'', CHR ''m'',
        CHR ''e'']"]
  have klow: "toLowerCase sampleWorld
     [CHR ''v'', CHR ''i'', CHR ''d'', CHR ''e'', CHR ''o'', CHR ''/'', CHR ''q'', CHR ''u'',
      CHR ''i'', CHR ''c'', CHR 0xE2, CHR 0x84, CHR 0xAA, CHR ''t'', CHR ''i'', CHR ''m'',
      CHR ''e''] = ''video/quicktime''"
    by code_simp
  have kfnd: "(case find (\<lambda>(ext, mime). mime = ''video/quicktime'') mimeTypes of
           Some (ext, mime) \<Rightarrow> Some (''.'' @ ext) | None \<Rightarrow> None) = Some ''.mov''"
    by code_simp
  have "getMimeExtension sampleWorld
     [CHR ''v'', CHR ''i'', CHR ''d'', CHR ''e'', CHR ''o'', CHR ''/'', CHR ''q'', CHR ''u'',
      CHR ''i'', CHR ''c'', CHR 0xE2, CHR 0x84, CHR 0xAA, CHR ''t'', CHR ''i'', CHR ''m'',
      CHR ''e''] =
     (case find (\<lambda>(ext, mime). mime = toLowerCase sampleWorld
        [CHR ''v'', CHR ''i'', CHR ''d'', CHR ''e'', CHR ''o'', CHR ''/'', CHR ''q'', CHR ''u'',
         CHR ''i'', CHR ''c'', CHR 0xE2, CHR 0x84, CHR 0xAA, CHR ''t'', CHR ''i'', CHR ''m'',
         CHR ''e'']) mimeTypes of
        Some (ext, mime) \<Rightarrow> Some (''.'' @ ext) | None \<Rightarrow> None)"
    using inst3 by blast
  then have kelvin: "getMimeExtension sampleWorld
     [CHR ''v'', CHR ''i'', CHR ''d'', CHR ''e'', CHR ''o'', CHR ''/'', CHR ''q'', CHR ''u'',
      CHR ''i'', CHR ''c'', CHR 0xE2, CHR 0x84, CHR 0xAA, CHR ''t'', CHR ''i'', CHR ''m'',
      CHR ''e''] = Some ''.mov''"
    unfolding klow kfnd .
  have w: "toLowerCase (singleFileWorld [] []) s = asciiLowerCase s" for s
    by (simp add: singleFileWorld_def)
  have ascii: "\<And>s. isAscii s \<Longrightarrow> toLowerCase (singleFileWorld [] []) s = asciiLowerCase s"
    using w by simp
  note inst1 = C9_getMimeExtension_first_match [OF ascii, of "''jpeg''" "''image/jpeg''" "''AUDIO/Mpeg''"]
  note inst2 = C9_getMimeExtension_first_match [OF ascii, of "''jpeg''" "''image/jpeg''" "''text/html''"]
  have mem: "(''jpeg'', ''image/jpeg'') \<in> set mimeTypes" by code_simp
  have roundtrip: "\<exists>e'. getMimeExtension (singleFileWorld [] []) ''image/jpeg'' = Some (''.'' @ e') \<and>
                   (e', ''image/jpeg'') \<in> set mimeTypes \<and>
                   mimeTypesGet e' = Some (JString ''image/jpeg'')"
    using inst1 mem by blast
  have asc: "isAscii ''AUDIO/Mpeg''" by code_simp
  have low: "asciiLowerCase ''AUDIO/Mpeg'' = ''audio/mpeg''" by code_simp
  have fnd: "(case find (\<lambda>(ext, mime). mime = ''audio/mpeg'') mimeTypes of
           Some (ext, mime) \<Rightarrow> Some (''.'' @ ext) | None \<Rightarrow> None) = Some ''.mp3''"
    by code_simp
  have "getMimeExtension (singleFileWorld [] []) ''AUDIO/Mpeg'' =
        (case find (\<lambda>(ext, mime). mime = asciiLowerCase ''AUDIO/Mpeg'') mimeTypes of
           Some (ext, mime) \<Rightarrow> Some (''.'' @ ext) | None \<Rightarrow> None)"
    using inst1 asc by blast
  then have mixed: "getMimeExtension (singleFileWorld [] []) ''AUDIO/Mpeg'' = Some ''.mp3''"
    using low fnd by simp
  have upper: "getMimeExtension (singleFileWorld [] []) ''IMAGE/JPEG'' = Some ''.jpg''"
    using inst1 by blast
  have non: "toLowerCase (singleFileWorld [] []) ''text/html'' \<notin> snd ` set mimeTypes"
    by code_simp
  have none: "getMimeExtension (singleFileWorld [] []) ''text/html'' = None"
    using inst2 non by blast
  show ?thesis using w mem roundtrip asc low mixed upper non none klow kelvin by blast
qed

lemma startsWith_simps [simp]:
  "startsWith s [] = True"
  "startsWith [] (c # p) = False"
  "startsWith (d # s) (c # p) = (d = c \<and> startsWith s p)"
  by (auto simp: startsWith_def)

lemma category_exclusive:
  "\<not> (isDocumentType v = Inr True \<and> isImageType v = Inr True) \<and>
   \<not> (isDocumentType v = Inr True \<and> isAudioType v = Inr True) \<and>
   \<not> (isDocumentType v = Inr True \<and> isVideoType v = Inr True) \<and>
   \<not> (isImageType v = Inr True \<and> isAudioType v = Inr True) \<and>
   \<not> (isImageType v = Inr True \<and> isVideoType v = Inr True) \<and>
   \<not> (isAudioType v = Inr True \<and> isVideoType v = Inr True)"
proof (cases v)
  case (JBuiltin n)
  then show ?thesis
    by (simp add: isDocumentType_def isImageType_def isAudioType_def isVideoType_def)
next
  case (JString m)
  show ?thesis
  proof (cases m)
    case Nil
    then show ?thesis using JString
      by (simp add: isDocumentType_def isImageType_def isAudioType_def isVideoType_def)
  next
    case (Cons c cs)
    show ?thesis
    proof (cases cs)
      case Nil
      then show ?thesis using Cons JString
        by (simp add: isDocumentType_def isImageType_def isAudioType_def isVideoType_def)
    next
      case (Cons d ds)
      then show ?thesis using \<open>m = c # cs\<close> JString
        by (auto simp add: isDocumentType_def isImageType_def isAudioType_def isVideoType_def)
    qed
  qed
qed

text \<open>
  C10. On one resolved MIME type string at most one of the four category tests holds, and
  so at most one of \<open>isDocument\<close>, \<open>isImage\<close>, \<open>isAudio\<close>, \<open>isVideo\<close> returns true for one
  resolution of a source.
\<close>

theorem C10_categories_mutually_exclusive:
  "\<not> (isDocumentType (JString m) = Inr True \<and> isImageType (JString m) = Inr True) \<and>
   \<not> (isDocumentType (JString m) = Inr True \<and> isAudioType (JString m) = Inr True) \<and>
   \<not> (isDocumentType (JString m) = Inr True \<and> isVideoType (JString m) = Inr True) \<and>
   \<not> (isImageType (JString m) = Inr True \<and> isAudioType (JString m) = Inr True) \<and>
   \<not> (isImageType (JString m) = Inr True \<and> isVideoType (JString m) = Inr True) \<and>
   \<not> (isAudioType (JString m) = Inr True \<and> isVideoType (JString m) = Inr True) \<and>
   \<not> (isDocument world p = Inr True \<and> isImage world p = Inr True) \<and>
   \<not> (isDocument world p = Inr True \<and> isAudio world p = Inr True) \<and>
   \<not> (isDocument world p = Inr True \<and> isVideo world p = Inr True) \<and>
   \<not> (isImage world p = Inr True \<and> isAudio world p = Inr True) \<and>
   \<not> (isImage world p = Inr True \<and> isVideo world p = Inr True) \<and>
   \<not> (isAudio world p = Inr True \<and> isVideo world p = Inr True)"
  using category_exclusive [of "JString m"] category_exclusive [of "getMimeType world p"]
  unfolding isDocument_def isImage_def isAudio_def isVideo_def
  by blast

section \<open>The built-in signatures\<close>

lemma bytesEqualAt_nth:
  assumes "bytesEqualAt buffer s" "i < length (bytes s)"
  shows "uint (buffer ! (offsetOf s + i)) = bytes s ! i"
proof -
  have le: "offsetOf s + length (bytes s) \<le> length buffer"
    and eq: "map uint (take (length (bytes s)) (drop (offsetOf s) buffer)) = bytes s"
    using assms(1) by (simp_all add: bytesEqualAt_def)
  have "bytes s ! i = map uint (take (length (bytes s)) (drop (offsetOf s) buffer)) ! i"
    using eq by simp
  also have "\<dots> = uint (take (length (bytes s)) (drop (offsetOf s) buffer) ! i)"
    using assms(2) le by (intro nth_map) simp
  also have "\<dots> = uint (buffer ! (offsetOf s + i))"
    using assms(2) le by simp
  finally show ?thesis by simp
qed

lemma bytesEqualAt_matches:
  assumes "bytesEqualAt buffer s"
  shows "signatureMatches buffer s"
proof -
  have le: "offsetOf s + length (bytes s) \<le> length buffer"
    using assms by (simp add: bytesEqualAt_def)
  have "positionAgrees buffer s i" if "i < length (bytes s)" for i
    unfolding positionAgrees_def using bytesEqualAt_nth [OF assms that] by simp
  then show ?thesis using le by (simp add: signatureMatches_iff)
qed


lemma clash_no_match:
  assumes eq: "bytesEqualAt buffer s" and clash: "signaturesClash s s'"
  shows "\<not> signatureMatches buffer s'"
proof
  assume m: "signatureMatches buffer s'"
  from clash obtain i where i: "i < length (bytes s')"
      and lo: "offsetOf s \<le> offsetOf s' + i"
      and hi: "offsetOf s' + i - offsetOf s < length (bytes s)"
      and ne: "jsBitAnd (bytes s ! (offsetOf s' + i - offsetOf s)) (maskAt s' i)
                 \<noteq> jsBitAnd (bytes s' ! i) (maskAt s' i)"
    by (auto simp: signaturesClash_def list_ex_iff)
  have "positionAgrees buffer s' i"
    using m i by (simp add: signatureMatches_iff)
  moreover have "uint (buffer ! (offsetOf s' + i)) = bytes s ! (offsetOf s' + i - offsetOf s)"
    using bytesEqualAt_nth [OF eq hi] lo by simp
  ultimately show False using ne by (simp add: positionAgrees_def)
qed

lemma early_signatures_clash:
  "list_all (\<lambda>k. list_all (\<lambda>j. fst (declarationOrder magicBytes ! j) = fst (declarationOrder magicBytes ! k)
                              \<or> signaturesClash (snd (declarationOrder magicBytes ! k))
                                                (snd (declarationOrder magicBytes ! j)))
                           [0 ..< k])
            [0 ..< 9]"
  by code_simp

lemma late_mime_types:
  "list_all (\<lambda>k. fst (declarationOrder magicBytes ! k) \<notin>
       set [''application/pdf'', ''image/jpeg'', ''image/png'', ''image/gif'', ''audio/mpeg''])
     [9 ..< length (declarationOrder magicBytes)]"
  by code_simp

lemma first_match_wins:
  fixes flat :: "(string \<times> MagicByte) list"
  assumes k: "k < length flat" and at: "flat ! k = (mt, s)" and m: "signatureMatches buffer s"
  shows "\<exists>r. map_option fst (find (\<lambda>(m, s). signatureMatches buffer s) flat) = Some r"
    and "(\<forall>j<k. fst (flat ! j) \<noteq> mt \<longrightarrow> \<not> signatureMatches buffer (snd (flat ! j))) \<Longrightarrow>
         map_option fst (find (\<lambda>(m, s). signatureMatches buffer s) flat) = Some mt"
proof -
  define P where "P = (\<lambda>x :: string \<times> MagicByte. signatureMatches buffer (snd x))"
  have Pk: "P (flat ! k)" using at m by (simp add: P_def)
  have PP: "(\<lambda>(m, s). signatureMatches buffer s) = P"
    by (simp add: P_def fun_eq_iff)
  have "flat ! k \<in> set flat" using k by simp
  then have "find P flat \<noteq> None"
    using Pk unfolding find_None_iff by blast
  then obtain x where x: "find P flat = Some x" by blast
  then show "\<exists>r. map_option fst (find (\<lambda>(m, s). signatureMatches buffer s) flat) = Some r"
    by (simp add: PP)
  assume others: "\<forall>j<k. fst (flat ! j) \<noteq> mt \<longrightarrow> \<not> signatureMatches buffer (snd (flat ! j))"
  from x obtain i where i: "i < length flat" "P (flat ! i)" "x = flat ! i"
      and first: "\<forall>j<i. \<not> P (flat ! j)"
    unfolding find_Some_iff by blast
  have "\<not> k < i" using first Pk by blast
  then have "i = k \<or> i < k" by arith
  then have "fst (flat ! i) = mt"
  proof
    assume "i = k" then show ?thesis using at by simp
  next
    assume "i < k"
    then have "fst (flat ! i) \<noteq> mt \<longrightarrow> \<not> signatureMatches buffer (snd (flat ! i))"
      using others by blast
    then show ?thesis using i(2) by (auto simp: P_def)
  qed
  then show "map_option fst (find (\<lambda>(m, s). signatureMatches buffer s) flat) = Some mt"
    using x i(3) by (simp add: PP)
qed

lemma early_clash:
  assumes "k < 9" "j < k"
  shows "fst (declarationOrder magicBytes ! j) = fst (declarationOrder magicBytes ! k)
         \<or> signaturesClash (snd (declarationOrder magicBytes ! k))
                           (snd (declarationOrder magicBytes ! j))"
proof -
  have kin: "k \<in> set [0 ..< 9]" using assms(1) by simp
  have jin: "j \<in> set [0 ..< k]" using assms(2) by simp
  from early_signatures_clash kin
  have "list_all (\<lambda>j. fst (declarationOrder magicBytes ! j) = fst (declarationOrder magicBytes ! k)
                              \<or> signaturesClash (snd (declarationOrder magicBytes ! k))
                                                (snd (declarationOrder magicBytes ! j)))
                           [0 ..< k]"
    unfolding list_all_iff [of _ "[0 ..< 9]"] by (rule bspec)
  then show ?thesis using jin unfolding list_all_iff by (rule bspec)
qed

lemma late_not_five:
  assumes "k < length (declarationOrder magicBytes)" "\<not> k < 9"
  shows "fst (declarationOrder magicBytes ! k) \<notin>
       set [''application/pdf'', ''image/jpeg'', ''image/png'', ''image/gif'', ''audio/mpeg'']"
proof -
  have kin: "k \<in> set [9 ..< length (declarationOrder magicBytes)]" using assms by simp
  show ?thesis using late_mime_types kin unfolding list_all_iff by (rule bspec)
qed

text \<open>
  C1, as the specification states it, fails: a buffer that carries the \<open>video/mp4\<close>
  signature \<open>66 74 79 70\<close> at offset 4 and begins with \<open>25 50 44 46\<close> is reported as
  \<open>application/pdf\<close>, because the PDF signature is declared first.
\<close>

theorem C1_earlier_signature_counterexample:
  "(''video/mp4'', sigAt [0x66, 0x74, 0x79, 0x70] 4) \<in> set (declarationOrder magicBytes) \<and>
   bytesEqualAt [0x25, 0x50, 0x44, 0x46, 0x66, 0x74, 0x79, 0x70] (sigAt [0x66, 0x74, 0x79, 0x70] 4) \<and>
   checkMagicBytes [0x25, 0x50, 0x44, 0x46, 0x66, 0x74, 0x79, 0x70] = Some ''application/pdf'' \<and>
   checkMagicBytes [0x25, 0x50, 0x44, 0x46, 0x66, 0x74, 0x79, 0x70] \<noteq> Some ''video/mp4''"
  by code_simp

text \<open>
  C1, amended. For every signature of the built-in table and every buffer whose bytes at
  the signature's offset equal the signature's bytes, \<open>checkMagicBytes\<close> returns a MIME
  type; it is the entry's MIME type whenever no signature declared earlier under another
  MIME type matches the buffer; and for the signatures of \<open>application/pdf\<close>,
  \<open>image/jpeg\<close>, \<open>image/png\<close>, \<open>image/gif\<close> and \<open>audio/mpeg\<close> it is the entry's MIME
  type whatever the other bytes of the buffer are.
\<close>

theorem C1_first_match_wins:
  assumes k: "k < length (declarationOrder magicBytes)"
      and at: "declarationOrder magicBytes ! k = (mt, signature)"
      and eq: "bytesEqualAt buffer signature"
  shows "(\<exists>r. checkMagicBytes buffer = Some r) \<and>
         ((\<forall>j<k. fst (declarationOrder magicBytes ! j) \<noteq> mt \<longrightarrow>
                  \<not> signatureMatches buffer (snd (declarationOrder magicBytes ! j)))
            \<longrightarrow> checkMagicBytes buffer = Some mt) \<and>
         (mt \<in> set [''application/pdf'', ''image/jpeg'', ''image/png'', ''image/gif'',
                     ''audio/mpeg'']
            \<longrightarrow> checkMagicBytes buffer = Some mt)"
proof -
  have m: "signatureMatches buffer signature" using eq by (rule bytesEqualAt_matches)
  have cm: "checkMagicBytes buffer
              = map_option fst (find (\<lambda>(m, s). signatureMatches buffer s)
                                     (declarationOrder magicBytes))"
    unfolding checkMagicBytes_def by (rule checkTypes_find)
  have some: "\<exists>r. checkMagicBytes buffer = Some r"
    unfolding cm by (rule first_match_wins(1) [OF k at m])
  have cond: "checkMagicBytes buffer = Some mt"
    if "\<forall>j<k. fst (declarationOrder magicBytes ! j) \<noteq> mt \<longrightarrow>
               \<not> signatureMatches buffer (snd (declarationOrder magicBytes ! j))"
    unfolding cm using that by (rule first_match_wins(2) [OF k at m])
  have five: "checkMagicBytes buffer = Some mt"
    if mem: "mt \<in> set [''application/pdf'', ''image/jpeg'', ''image/png'', ''image/gif'',
                        ''audio/mpeg'']"
  proof -
    have k9: "k < 9"
    proof (rule ccontr)
      assume "\<not> k < 9"
      from late_not_five [OF k this]
      have "mt \<notin> set [''application/pdf'', ''image/jpeg'', ''image/png'', ''image/gif'',
                        ''audio/mpeg'']"
        unfolding at fst_conv .
      then show False using mem by (rule notE)
    qed
    have "\<not> signatureMatches buffer (snd (declarationOrder magicBytes ! j))"
      if j: "j < k" and ne: "fst (declarationOrder magicBytes ! j) \<noteq> mt" for j
    proof -
      have "fst (declarationOrder magicBytes ! j) = mt
              \<or> signaturesClash signature (snd (declarationOrder magicBytes ! j))"
        using early_clash [OF k9 j] unfolding at fst_conv snd_conv .
      then have "signaturesClash signature (snd (declarationOrder magicBytes ! j))"
        using ne by blast
      with eq show ?thesis by (rule clash_no_match)
    qed
    then show ?thesis by (intro cond) blast
  qed
  show ?thesis using some cond five by blast
qed

theorem C1_first_match_wins_witness:
  "1 < length (declarationOrder magicBytes) \<and>
   declarationOrder magicBytes ! 1 = (''image/jpeg'', sig0 [0xff, 0xd8, 0xff, 0xe0]) \<and>
   bytesEqualAt [0xff, 0xd8, 0xff, 0xe0, 0x00, 0x10] (sig0 [0xff, 0xd8, 0xff, 0xe0]) \<and>
   ''image/jpeg'' \<in> set [''application/pdf'', ''image/jpeg'', ''image/png'', ''image/gif'',
                           ''audio/mpeg''] \<and>
   checkMagicBytes [0xff, 0xd8, 0xff, 0xe0, 0x00, 0x10] = Some ''image/jpeg'' \<and>
   9 < length (declarationOrder magicBytes) \<and>
   declarationOrder magicBytes ! 9 = (''video/mp4'', sigAt [0x66, 0x74, 0x79, 0x70] 4) \<and>
   bytesEqualAt [0x00, 0x00, 0x00, 0x18, 0x66, 0x74, 0x79, 0x70]
                (sigAt [0x66, 0x74, 0x79, 0x70] 4) \<and>
   list_all (\<lambda>j. fst (declarationOrder magicBytes ! j) = ''video/mp4'' \<or>
                  \<not> signatureMatches [0x00, 0x00, 0x00, 0x18, 0x66, 0x74, 0x79, 0x70]
                                       (snd (declarationOrder magicBytes ! j)))
            [0 ..< 9] \<and>
   checkMagicBytes [0x00, 0x00, 0x00, 0x18, 0x66, 0x74, 0x79, 0x70] = Some ''video/mp4''"
proof -
  have k1: "1 < length (declarationOrder magicBytes)" by code_simp
  have at1: "declarationOrder magicBytes ! 1 = (''image/jpeg'', sig0 [0xff, 0xd8, 0xff, 0xe0])"
    by code_simp
  have eq1: "bytesEqualAt [0xff, 0xd8, 0xff, 0xe0, 0x00, 0x10] (sig0 [0xff, 0xd8, 0xff, 0xe0])"
    by code_simp
  have five: "''image/jpeg'' \<in> set [''application/pdf'', ''image/jpeg'', ''image/png'',
                                     ''image/gif'', ''audio/mpeg'']"
    by simp
  have r1: "checkMagicBytes [0xff, 0xd8, 0xff, 0xe0, 0x00, 0x10] = Some ''image/jpeg''"
    using C1_first_match_wins [OF k1 at1 eq1] five by blast
  have k9: "9 < length (declarationOrder magicBytes)" by code_simp
  have at9: "declarationOrder magicBytes ! 9 = (''video/mp4'', sigAt [0x66, 0x74, 0x79, 0x70] 4)"
    by code_simp
  have eq9: "bytesEqualAt [0x00, 0x00, 0x00, 0x18, 0x66, 0x74, 0x79, 0x70]
                (sigAt [0x66, 0x74, 0x79, 0x70] 4)"
    by code_simp
  have ear: "list_all (\<lambda>j. fst (declarationOrder magicBytes ! j) = ''video/mp4'' \<or>
                  \<not> signatureMatches [0x00, 0x00, 0x00, 0x18, 0x66, 0x74, 0x79, 0x70]
                                       (snd (declarationOrder magicBytes ! j)))
            [0 ..< 9]"
    by code_simp
  have others: "\<forall>j<9. fst (declarationOrder magicBytes ! j) \<noteq> ''video/mp4'' \<longrightarrow>
                  \<not> signatureMatches [0x00, 0x00, 0x00, 0x18, 0x66, 0x74, 0x79, 0x70]
                                       (snd (declarationOrder magicBytes ! j))"
  proof (intro allI impI)
    fix j :: nat assume "j < 9" and ne: "fst (declarationOrder magicBytes ! j) \<noteq> ''video/mp4''"
    then have "j \<in> set [0 ..< 9]" by simp
    with ear have "fst (declarationOrder magicBytes ! j) = ''video/mp4'' \<or>
                  \<not> signatureMatches [0x00, 0x00, 0x00, 0x18, 0x66, 0x74, 0x79, 0x70]
                                       (snd (declarationOrder magicBytes ! j))"
      unfolding list_all_iff by (rule bspec)
    then show "\<not> signatureMatches [0x00, 0x00, 0x00, 0x18, 0x66, 0x74, 0x79, 0x70]
                                       (snd (declarationOrder magicBytes ! j))"
      using ne by blast
  qed
  have r9: "checkMagicBytes [0x00, 0x00, 0x00, 0x18, 0x66, 0x74, 0x79, 0x70] = Some ''video/mp4''"
    using C1_first_match_wins [OF k9 at9 eq9] others by blast
  show ?thesis using k1 at1 eq1 five r1 k9 at9 eq9 ear r9 by blast
qed

section \<open>The derived extension\<close>

lemma extnameLoop_scan:
  "n \<le> length path \<Longrightarrow> extnameLoop path n st = extnameScan (rev (take n path)) st"
proof (induction n arbitrary: st)
  case 0
  show ?case by simp
next
  case (Suc i)
  then have i: "i < length path" by simp
  have r: "rev (take (Suc i) path) = path ! i # rev (take i path)"
    using i by (simp add: take_Suc_conv_app_nth)
  have len: "length (rev (take i path)) = i" using i by simp
  have "\<And>st. extnameLoop path i st = extnameScan (rev (take i path)) st"
    using Suc.IH i by simp
  then have ih: "extnameLoop path i = extnameScan (rev (take i path))"
    by (intro ext)
  show ?case
    by (simp only: r extnameLoop.simps extnameScan.simps len ih)
qed

lemma scan_after_dot:
  "startDot st \<noteq> -1 \<Longrightarrow> \<not> matchedSlash st \<Longrightarrow> endPos st \<noteq> -1 \<Longrightarrow>
   extnameScan r st =
     st\<lparr>startPart := (if slashFree r = r then startPart st
                       else int (length r - length (slashFree r))),
        preDotState := (if slashFree r = [] then preDotState st
                         else if last (slashFree r) = CHR ''.'' then 1 else -1)\<rparr>"
proof (induction r arbitrary: st)
  case Nil
  show ?case by (simp add: slashFree_def)
next
  case (Cons c r)
  show ?case
  proof (cases "c = CHR ''/''")
    case True
    then show ?thesis using Cons.prems by (simp add: slashFree_def)
  next
    case False
    define st2 where "st2 = st\<lparr>preDotState := (if c = CHR ''.'' then 1 else -1)\<rparr>"
    have same: "preDotState st = 1 \<Longrightarrow> st\<lparr>preDotState := 1\<rparr> = st"
      by (cases st) simp
    have step: "extnameScan (c # r) st = extnameScan r st2"
    proof (cases "c = CHR ''.'' \<and> preDotState st = 1")
      case True
      then have "st2 = st" using same by (simp add: st2_def)
      then show ?thesis using \<open>c \<noteq> CHR ''/''\<close> Cons.prems True by (simp add: Let_def)
    next
      case False
      then show ?thesis using \<open>c \<noteq> CHR ''/''\<close> Cons.prems by (auto simp add: st2_def Let_def)
    qed
    have pre: "startDot st2 \<noteq> -1" "\<not> matchedSlash st2" "endPos st2 \<noteq> -1"
      using Cons.prems by (simp_all add: st2_def)
    have sf: "slashFree (c # r) = c # slashFree r" using False by (simp add: slashFree_def)
    have lenle: "length (slashFree r) \<le> length r" by (simp add: slashFree_def length_takeWhile_le)
    show ?thesis
      unfolding step Cons.IH [OF pre] sf
      using lenle
      by (cases "slashFree r = []") (auto simp: st2_def Suc_diff_le)
  qed
qed

lemma scan_before_dot:
  "startDot st = -1 \<Longrightarrow> \<not> matchedSlash st \<Longrightarrow> endPos st \<noteq> -1 \<Longrightarrow>
   extnameScan r st =
     (if CHR ''.'' \<notin> set (slashFree r) then
        st\<lparr>startPart := (if slashFree r = r then startPart st
                          else int (length r - length (slashFree r)))\<rparr>
      else
        st\<lparr>startPart := (if slashFree r = r then startPart st
                          else int (length r - length (slashFree r))),
           startDot := int (length r - length (takeWhile (\<lambda>c. c \<noteq> CHR ''.'') (slashFree r)) - 1),
           preDotState :=
             (let u = drop (Suc (length (takeWhile (\<lambda>c. c \<noteq> CHR ''.'') (slashFree r))))
                           (slashFree r)
              in if u = [] then preDotState st
                 else if last u = CHR ''.'' then 1 else -1)\<rparr>)"
proof (induction r arbitrary: st)
  case Nil
  show ?case by (simp add: slashFree_def)
next
  case (Cons c r)
  have lenle: "length (slashFree r) \<le> length r"
    by (simp add: slashFree_def length_takeWhile_le)
  show ?case
  proof (cases "c = CHR ''/''")
    case True
    then show ?thesis using Cons.prems by (simp add: slashFree_def)
  next
    case False
    have sf: "slashFree (c # r) = c # slashFree r" using False by (simp add: slashFree_def)
    show ?thesis
    proof (cases "c = CHR ''.''")
      case True
      define st2 where "st2 = st\<lparr>startDot := int (length r)\<rparr>"
      have step: "extnameScan (c # r) st = extnameScan r st2"
        using True Cons.prems by (simp add: st2_def Let_def)
      have pre: "startDot st2 \<noteq> -1" "\<not> matchedSlash st2" "endPos st2 \<noteq> -1"
        using Cons.prems by (simp_all add: st2_def)
      show ?thesis
        unfolding step scan_after_dot [OF pre] sf
        using True lenle by (auto simp: st2_def Let_def Suc_diff_le)
    next
      case notdot: False
      have step: "extnameScan (c # r) st = extnameScan r st"
        using False notdot Cons.prems by (simp add: Let_def)
      show ?thesis
        unfolding step Cons.IH [OF Cons.prems] sf
        using notdot False lenle by (auto simp: Let_def Suc_diff_le)
    qed
  qed
qed

lemma scan_trailing_slashes:
  "extnameScan r extInit =
     (let r' = dropWhile (\<lambda>c. c = CHR ''/'') r in
      if r' = [] then extInit
      else extnameScan r' (extInit\<lparr>matchedSlash := False, endPos := int (length r')\<rparr>))"
proof (induction r)
  case Nil
  show ?case by simp
next
  case (Cons c r)
  show ?case
  proof (cases "c = CHR ''/''")
    case True
    then show ?thesis using Cons.IH by (simp add: extInit_def)
  next
    case False
    then show ?thesis by (simp add: extInit_def Let_def add.commute)
  qed
qed

lemma split_at_last_dot:
  assumes "CHR ''.'' \<in> set w"
  shows "w = takeWhile (\<lambda>c. c \<noteq> CHR ''.'') w @ CHR ''.'' #
             drop (Suc (length (takeWhile (\<lambda>c. c \<noteq> CHR ''.'') w))) w"
proof -
  let ?v = "takeWhile (\<lambda>c. c \<noteq> CHR ''.'') w"
  let ?d = "dropWhile (\<lambda>c. c \<noteq> CHR ''.'') w"
  have ne: "?d \<noteq> []" using assms by (simp add: dropWhile_eq_Nil_conv) 
  then have "\<not> (hd ?d \<noteq> CHR ''.'')" by (rule hd_dropWhile)
  then have d: "?d = CHR ''.'' # tl ?d" using ne by (cases ?d) auto
  have w: "w = ?v @ ?d" by simp
  have "drop (Suc (length ?v)) w = drop (Suc (length ?v)) (?v @ ?d)" by simp
  also have "\<dots> = drop 1 ?d" by (simp only: drop_append) simp
  also have "\<dots> = tl ?d" by (simp add: drop_Suc)
  finally have "drop (Suc (length ?v)) w = tl ?d" .
  then show ?thesis using w d by metis
qed

lemma extname_final_state:
  fixes path :: string
  defines "r' \<equiv> dropWhile (\<lambda>c. c = CHR ''/'') (rev path)"
  defines "w \<equiv> slashFree r'"
  defines "v \<equiv> takeWhile (\<lambda>c. c \<noteq> CHR ''.'') w"
  defines "u \<equiv> drop (Suc (length v)) w"
  defines "st \<equiv> extnameLoop path (length path) extInit"
  shows "r' = [] \<Longrightarrow> st = extInit"
    and "r' \<noteq> [] \<Longrightarrow> CHR ''.'' \<notin> set w \<Longrightarrow> startDot st = -1"
    and "r' \<noteq> [] \<Longrightarrow> CHR ''.'' \<in> set w \<Longrightarrow>
           startDot st = int (length r' - length v - 1) \<and>
           endPos st = int (length r') \<and>
           startPart st = int (length r' - length w) \<and>
           preDotState st = (if u = [] then 0 else if last u = CHR ''.'' then 1 else -1)"
proof -
  let ?st0 = "extInit\<lparr>matchedSlash := False, endPos := int (length r')\<rparr>"
  have scan: "st = (if r' = [] then extInit else extnameScan r' ?st0)"
    unfolding st_def r'_def
    using extnameLoop_scan [of "length path" path extInit]
          scan_trailing_slashes [of "rev path"]
    by (simp add: Let_def)
  show "r' = [] \<Longrightarrow> st = extInit" using scan by simp
  have pre: "startDot ?st0 = -1" "\<not> matchedSlash ?st0" "endPos ?st0 \<noteq> -1"
    by (simp_all add: extInit_def)
  have lenle: "length w \<le> length r'"
    by (simp add: w_def slashFree_def length_takeWhile_le)
  show "r' \<noteq> [] \<Longrightarrow> CHR ''.'' \<notin> set w \<Longrightarrow> startDot st = -1"
    using scan scan_before_dot [OF pre, of r'] by (simp add: w_def extInit_def)
  show "startDot st = int (length r' - length v - 1) \<and>
           endPos st = int (length r') \<and>
           startPart st = int (length r' - length w) \<and>
           preDotState st = (if u = [] then 0 else if last u = CHR ''.'' then 1 else -1)"
    if "r' \<noteq> []" "CHR ''.'' \<in> set w"
  proof -
    have "st = extnameScan r' ?st0" using scan that by simp
    then show ?thesis
      using scan_before_dot [OF pre, of r'] that(2) lenle
      by (simp add: w_def [symmetric] v_def [symmetric] u_def [symmetric] Let_def extInit_def)
  qed
qed

lemma slice_middle: "slice (a @ b @ c) (length a) (length a + length b) = b"
  by (simp add: slice_def)

lemma extname_characterisation:
  "extname path =
     (let c = lastComponent path in
      if CHR ''.'' \<notin> set c \<or> c = CHR ''.'' # afterLastDot c \<or> c = ''..'' then []
      else CHR ''.'' # afterLastDot c)"
proof -
  define r' where "r' = dropWhile (\<lambda>c. c = CHR ''/'') (rev path)"
  define w where "w = slashFree r'"
  define v where "v = takeWhile (\<lambda>c. c \<noteq> CHR ''.'') w"
  define u where "u = drop (Suc (length v)) w"
  define st where "st = extnameLoop path (length path) extInit"
  define c where "c = lastComponent path"
  note fin = extname_final_state [of path, folded r'_def, folded w_def, folded v_def,
                                  folded u_def, folded st_def]
  have c: "c = rev w"
    by (simp add: c_def lastComponent_def w_def slashFree_def r'_def)
  have ext: "extname path =
      (if startDot st = -1 \<or> endPos st = -1 \<or> preDotState st = 0 \<or>
          (preDotState st = 1 \<and> startDot st = endPos st - 1 \<and> startDot st = startPart st + 1)
       then [] else slice path (nat (startDot st)) (nat (endPos st)))"
    by (simp add: extname_def st_def Let_def)
  show ?thesis
  proof (cases "r' = []")
    case True
    then have "st = extInit" by (rule fin(1))
    moreover have "c = []" using True c by (simp add: w_def slashFree_def)
    ultimately show ?thesis using ext by (simp add: extInit_def c_def [symmetric])
  next
    case ne: False
    show ?thesis
    proof (cases "CHR ''.'' \<in> set w")
      case False
      then have "startDot st = -1" using fin(2) ne by blast
      moreover have "CHR ''.'' \<notin> set c" using False c by simp
      ultimately show ?thesis using ext by (simp add: c_def [symmetric])
    next
      case True
      have sd: "startDot st = int (length r' - length v - 1)"
        and en: "endPos st = int (length r')"
        and sp: "startPart st = int (length r' - length w)"
        and pd: "preDotState st = (if u = [] then 0 else if last u = CHR ''.'' then 1 else -1)"
        using fin(3) [OF ne True] by simp_all
      have wsplit: "w = v @ CHR ''.'' # u"
        unfolding u_def v_def by (rule split_at_last_dot [OF True])
      have vnodot: "CHR ''.'' \<notin> set v"
        unfolding v_def by (auto dest: set_takeWhileD)
      have cform: "c = rev u @ CHR ''.'' # rev v" using c wsplit by simp
      have ald: "afterLastDot c = rev v"
      proof -
        have "rev c = v @ CHR ''.'' # u" using c wsplit by simp
        moreover have "\<And>x. x \<in> set v \<Longrightarrow> x \<noteq> CHR ''.''" using vnodot by auto
        ultimately have "takeWhile (\<lambda>c. c \<noteq> CHR ''.'') (rev c) = v"
          by (simp add: takeWhile_append2)
        then show ?thesis by (simp add: afterLastDot_def)
      qed
      have dotin: "CHR ''.'' \<in> set c" using cform by simp
      have first: "(c = CHR ''.'' # afterLastDot c) = (u = [])"
        using cform ald by auto
      obtain rest where r'split: "r' = w @ rest"
        unfolding w_def slashFree_def by (metis takeWhile_dropWhile_id)
      obtain sl where psplit: "rev path = sl @ r'"
        unfolding r'_def by (metis takeWhile_dropWhile_id)
      have lenr: "length r' = length v + 1 + length u + length rest"
        using r'split wsplit by simp
      have pathform: "path = (rev rest @ rev u) @ (CHR ''.'' # rev v) @ rev sl"
      proof -
        have "rev path = sl @ v @ CHR ''.'' # u @ rest"
          using psplit r'split wsplit by simp
        then have "rev (rev path) = rev (sl @ v @ CHR ''.'' # u @ rest)" by simp
        then show ?thesis by simp
      qed
      have sl: "slice path (length r' - length v - 1) (length r') = CHR ''.'' # rev v"
      proof -
        have a: "length r' - length v - 1 = length (rev rest @ rev u)" using lenr by simp
        have b: "length r' = length (rev rest @ rev u) + length (CHR ''.'' # rev v)"
          using lenr by simp
        show ?thesis
          unfolding a by (subst b, subst pathform) (rule slice_middle)
      qed
      have dd: "(preDotState st = 1 \<and> startDot st = endPos st - 1 \<and> startDot st = startPart st + 1)
                  = (c = ''..'')"
      proof
        assume h: "preDotState st = 1 \<and> startDot st = endPos st - 1 \<and> startDot st = startPart st + 1"
        then have une: "u \<noteq> []" and lu: "last u = CHR ''.''"
          using pd by (auto split: if_splits)
        have "length v = 0" using h sd en lenr by simp
        then have v0: "v = []" by simp
        have "length w = 2" using h sd sp lenr r'split v0 by simp 
        then have "length u = 1" using wsplit v0 by simp
        then have "u = [last u]" using une by (cases u) auto
        then show "c = ''..''" using cform v0 lu by simp
      next
        assume "c = ''..''"
        then have "rev u @ CHR ''.'' # rev v = ''..''" using cform by simp
        then have v0: "v = []" and u1: "u = ''.''"
          using vnodot by (auto simp: append_eq_Cons_conv Cons_eq_append_conv)
        have "length w = 2" using wsplit v0 u1 by simp
        then show "preDotState st = 1 \<and> startDot st = endPos st - 1 \<and> startDot st = startPart st + 1"
          using pd sd en sp v0 u1 lenr r'split by simp
      qed
      have sdne: "startDot st \<noteq> -1" "endPos st \<noteq> -1" using sd en by simp_all
      have pd0: "(preDotState st = 0) = (u = [])" using pd by simp
      have "extname path =
          (if u = [] \<or> c = ''..'' then [] else CHR ''.'' # rev v)"
        unfolding ext using sdne pd0 dd sl by (simp add: sd en)
      then show ?thesis
        using dotin first ald by (simp add: c_def [symmetric])
    qed
  qed
qed

lemma lastComponent_no_slash:
  assumes "CHR ''/'' \<notin> set d"
  shows "lastComponent d = d"
proof -
  have all: "\<And>x. x \<in> set (rev d) \<Longrightarrow> x \<noteq> CHR ''/''" using assms by auto
  have dw: "dropWhile (\<lambda>c. c = CHR ''/'') (rev d) = rev d"
    using all by (cases "rev d") auto
  have tw: "takeWhile (\<lambda>c. c \<noteq> CHR ''/'') (rev d) = rev d"
    using all by (intro takeWhile_eq_all_conv [THEN iffD2]) blast
  show ?thesis unfolding lastComponent_def dw tw by simp
qed

lemma lastComponent_subset: "set (lastComponent d) \<subseteq> set d"
proof
  fix x assume "x \<in> set (lastComponent d)"
  then have "x \<in> set (takeWhile (\<lambda>c. c \<noteq> CHR ''/'') (dropWhile (\<lambda>c. c = CHR ''/'') (rev d)))"
    by (simp add: lastComponent_def)
  then have "x \<in> set (dropWhile (\<lambda>c. c = CHR ''/'') (rev d))" by (rule set_takeWhileD [THEN conjunct1])
  then have "x \<in> set (rev d)" by (rule set_dropWhileD)
  then show "x \<in> set d" by simp
qed

lemma derivedExtension_characterisation:
  assumes dot: "\<And>s. toLowerCase world (CHR ''.'' # s) = CHR ''.'' # toLowerCase world s"
      and ascii: "\<And>s. isAscii s \<Longrightarrow> toLowerCase world s = asciiLowerCase s"
  shows "derivedExtension world d =
     (let c = lastComponent d in
      if c = CHR ''.'' # afterLastDot c \<or> c = ''..'' then [] else specExtension world c)"
proof -
  have low: "slice1 (toLowerCase world (CHR ''.'' # x)) = toLowerCase world x" for x
    by (simp add: slice1_def dot)
  have "toLowerCase world [] = asciiLowerCase []" by (rule ascii) (simp add: isAscii_def)
  then have emp: "slice1 (toLowerCase world []) = []"
    by (simp add: slice1_def asciiLowerCase_def)
  show ?thesis
    unfolding derivedExtension_def extname_characterisation Let_def specExtension_def
    using low emp by auto
qed

lemma isAscii_afterLastDot: "isAscii d \<Longrightarrow> isAscii (afterLastDot (lastComponent d))"
proof -
  assume a: "isAscii d"
  have "set (afterLastDot (lastComponent d)) \<subseteq> set (lastComponent d)"
    by (auto simp: afterLastDot_def dest: set_takeWhileD)
  then have "set (afterLastDot (lastComponent d)) \<subseteq> set d"
    using lastComponent_subset [of d] by blast
  then show ?thesis using a unfolding isAscii_def list_all_iff by blast
qed

text \<open>
  C7, as the specification states it, fails: for the descriptor \<open>.mp3\<close> the text after the
  last dot is \<open>mp3\<close>, and for \<open>my.dir/notes\<close> it is \<open>dir/notes\<close>, but the extension the code
  derives is empty in both cases.
\<close>

theorem C7_dotfile_counterexample:
  "derivedExtension (singleFileWorld [] []) ''.mp3'' = [] \<and>
   specExtension (singleFileWorld [] []) ''.mp3'' = ''mp3'' \<and>
   derivedExtension (singleFileWorld [] []) ''my.dir/notes'' = [] \<and>
   specExtension (singleFileWorld [] []) ''my.dir/notes'' = ''dir/notes''"
  by code_simp

text \<open>
  C7, amended. With \<open>path.extname\<close> in its POSIX variant, and a runtime \<open>toLowerCase\<close> that
  keeps a leading dot and folds the ASCII letters on ASCII strings: the extension used for
  the fallback lookup is taken from the last path component of the descriptor (the text
  after its last slash, trailing slashes ignored). It is the text after the last dot of
  that component, lower-cased by the runtime, which for an ASCII descriptor is that text
  with its ASCII letters folded; it is empty when the component has no dot, when its only
  dot is its first character, and when the component is \<open>..\<close>. So it is empty when the
  descriptor has no dot, it is the lower-cased text after the last dot of the descriptor
  when the descriptor has no slash, does not have its only dot in front and is not \<open>..\<close>,
  \<open>FILE.JPG\<close> gives \<open>jpg\<close>, and query strings and fragments are not stripped:
  \<open>https://x.com/file.jpg?x=1\<close> gives \<open>jpg?x=1\<close>.
\<close>

theorem C7_extension_of_last_component:
  assumes dot: "\<And>s. toLowerCase world (CHR ''.'' # s) = CHR ''.'' # toLowerCase world s"
      and ascii: "\<And>s. isAscii s \<Longrightarrow> toLowerCase world s = asciiLowerCase s"
  shows
  "derivedExtension world d =
     (let c = lastComponent d in
      if c = CHR ''.'' # afterLastDot c \<or> c = ''..'' then [] else specExtension world c) \<and>
   (isAscii d \<longrightarrow>
      derivedExtension world d =
        (let c = lastComponent d in
         if CHR ''.'' \<notin> set c \<or> c = CHR ''.'' # afterLastDot c \<or> c = ''..'' then []
         else asciiLowerCase (afterLastDot c))) \<and>
   (\<forall>c. of_char (asciiLowerChar c) =
          (if 65 \<le> (of_char c :: nat) \<and> (of_char c :: nat) \<le> 90 then of_char c + 32
           else (of_char c :: nat))) \<and>
   (CHR ''.'' \<notin> set d \<longrightarrow> derivedExtension world d = []) \<and>
   (CHR ''/'' \<notin> set d \<and> d \<noteq> CHR ''.'' # afterLastDot d \<and> d \<noteq> ''..''
      \<longrightarrow> derivedExtension world d = specExtension world d) \<and>
   derivedExtension world ''FILE.JPG'' = ''jpg'' \<and>
   derivedExtension world ''https://x.com/file.jpg?x=1'' = ''jpg?x=1''"
proof (intro conjI impI)
  note char = derivedExtension_characterisation [OF dot ascii]
  show "derivedExtension world d =
     (let c = lastComponent d in
      if c = CHR ''.'' # afterLastDot c \<or> c = ''..'' then [] else specExtension world c)"
    by (rule char)
  show "\<forall>c. of_char (asciiLowerChar c) =
          (if 65 \<le> (of_char c :: nat) \<and> (of_char c :: nat) \<le> 90 then of_char c + 32
           else (of_char c :: nat))"
    using asciiLowerChar_code by blast
  {
    assume "isAscii d"
    then have "toLowerCase world (afterLastDot (lastComponent d))
                 = asciiLowerCase (afterLastDot (lastComponent d))"
      by (intro ascii isAscii_afterLastDot)
    then show "derivedExtension world d =
        (let c = lastComponent d in
         if CHR ''.'' \<notin> set c \<or> c = CHR ''.'' # afterLastDot c \<or> c = ''..'' then []
         else asciiLowerCase (afterLastDot c))"
      by (simp add: char Let_def specExtension_def)
  }
  {
    assume "CHR ''.'' \<notin> set d"
    then have "CHR ''.'' \<notin> set (lastComponent d)" using lastComponent_subset [of d] by blast
    then show "derivedExtension world d = []"
      by (simp add: char Let_def specExtension_def)
  }
  {
    assume "CHR ''/'' \<notin> set d \<and> d \<noteq> CHR ''.'' # afterLastDot d \<and> d \<noteq> ''..''"
    then show "derivedExtension world d = specExtension world d"
      by (simp add: char Let_def lastComponent_no_slash)
  }
  {
    have lc: "lastComponent ''FILE.JPG'' = ''FILE.JPG''" by code_simp
    have ald: "afterLastDot ''FILE.JPG'' = ''JPG''" by code_simp
    have asc: "isAscii ''JPG''" by code_simp
    have low: "asciiLowerCase ''JPG'' = ''jpg''" by code_simp
    have "derivedExtension world ''FILE.JPG'' = specExtension world ''FILE.JPG''"
      using char [of "''FILE.JPG''"] unfolding lc Let_def ald by simp
    also have "\<dots> = toLowerCase world ''JPG''" by (simp add: specExtension_def ald)
    also have "\<dots> = ''jpg''" using ascii [OF asc] low by simp
    finally show "derivedExtension world ''FILE.JPG'' = ''jpg''" .
  }
  {
    have lc: "lastComponent ''https://x.com/file.jpg?x=1'' = ''file.jpg?x=1''" by code_simp
    have ald: "afterLastDot ''file.jpg?x=1'' = ''jpg?x=1''" by code_simp
    have asc: "isAscii ''jpg?x=1''" by code_simp
    have low: "asciiLowerCase ''jpg?x=1'' = ''jpg?x=1''" by code_simp
    have "derivedExtension world ''https://x.com/file.jpg?x=1''
            = specExtension world ''file.jpg?x=1''"
      using char [of "''https://x.com/file.jpg?x=1''"] unfolding lc Let_def ald by simp
    also have "\<dots> = toLowerCase world ''jpg?x=1''" by (simp add: specExtension_def ald)
    also have "\<dots> = ''jpg?x=1''" using ascii [OF asc] low by simp
    finally show "derivedExtension world ''https://x.com/file.jpg?x=1'' = ''jpg?x=1''" .
  }
qed

theorem C7_extension_of_last_component_witness:
  "(\<forall>s. toLowerCase (singleFileWorld [] []) (CHR ''.'' # s)
          = CHR ''.'' # toLowerCase (singleFileWorld [] []) s) \<and>
   (\<forall>s. toLowerCase (singleFileWorld [] []) s = asciiLowerCase s) \<and>
   CHR ''.'' \<notin> set ''README'' \<and> derivedExtension (singleFileWorld [] []) ''README'' = [] \<and>
   CHR ''/'' \<notin> set ''Photo.JPeG'' \<and>
   ''Photo.JPeG'' \<noteq> CHR ''.'' # afterLastDot ''Photo.JPeG'' \<and> ''Photo.JPeG'' \<noteq> ''..'' \<and>
   derivedExtension (singleFileWorld [] []) ''Photo.JPeG''
     = specExtension (singleFileWorld [] []) ''Photo.JPeG'' \<and>
   specExtension (singleFileWorld [] []) ''Photo.JPeG'' = ''jpeg'' \<and>
   isAscii ''/srv/My.Dir/Clip.final.MP4/'' \<and>
   lastComponent ''/srv/My.Dir/Clip.final.MP4/'' = ''Clip.final.MP4'' \<and>
   afterLastDot ''Clip.final.MP4'' = ''MP4'' \<and>
   derivedExtension (singleFileWorld [] []) ''/srv/My.Dir/Clip.final.MP4/'' = ''mp4'' \<and>
   derivedExtension sampleWorld [CHR ''x'', CHR ''.'', CHR 0xC3, CHR 0x89] = [CHR 0xC3, CHR 0xA9]"
proof -
  have sdot: "\<And>s. toLowerCase sampleWorld (CHR ''.'' # s) = CHR ''.'' # toLowerCase sampleWorld s"
    by (simp only: sampleWorld_lower sampleToLowerCase_dot)
  have sascii: "\<And>s. isAscii s \<Longrightarrow> toLowerCase sampleWorld s = asciiLowerCase s"
    by (simp add: sampleWorld_lower sampleToLowerCase_ascii)
  have srhs: "(let c = lastComponent [CHR ''x'', CHR ''.'', CHR 0xC3, CHR 0x89] in
      if c = CHR ''.'' # afterLastDot c \<or> c = ''..'' then [] else specExtension sampleWorld c)
        = [CHR 0xC3, CHR 0xA9]"
    by code_simp
  have "derivedExtension sampleWorld [CHR ''x'', CHR ''.'', CHR 0xC3, CHR 0x89] =
     (let c = lastComponent [CHR ''x'', CHR ''.'', CHR 0xC3, CHR 0x89] in
      if c = CHR ''.'' # afterLastDot c \<or> c = ''..'' then [] else specExtension sampleWorld c)"
    using C7_extension_of_last_component [OF sdot sascii,
            of "[CHR ''x'', CHR ''.'', CHR 0xC3, CHR 0x89]"]
    by blast
  then have r4: "derivedExtension sampleWorld [CHR ''x'', CHR ''.'', CHR 0xC3, CHR 0x89]
                   = [CHR 0xC3, CHR 0xA9]"
    unfolding srhs .
  have w: "toLowerCase (singleFileWorld [] []) s = asciiLowerCase s" for s
    by (simp add: singleFileWorld_def)
  have dotc: "asciiLowerChar CHR ''.'' = CHR ''.''" by (simp add: asciiLowerChar_def)
  have dot: "\<And>s. toLowerCase (singleFileWorld [] []) (CHR ''.'' # s)
          = CHR ''.'' # toLowerCase (singleFileWorld [] []) s"
    by (simp add: w asciiLowerCase_def dotc)
  have ascii: "\<And>s. isAscii s \<Longrightarrow> toLowerCase (singleFileWorld [] []) s = asciiLowerCase s"
    using w by simp
  have h1: "CHR ''.'' \<notin> set ''README''" by simp
  have r1: "derivedExtension (singleFileWorld [] []) ''README'' = []"
    using C7_extension_of_last_component [OF dot ascii, of "''README''"] h1 by blast
  have h2: "CHR ''/'' \<notin> set ''Photo.JPeG'' \<and>
            ''Photo.JPeG'' \<noteq> CHR ''.'' # afterLastDot ''Photo.JPeG'' \<and> ''Photo.JPeG'' \<noteq> ''..''"
    by simp
  have r2: "derivedExtension (singleFileWorld [] []) ''Photo.JPeG''
              = specExtension (singleFileWorld [] []) ''Photo.JPeG''"
    using C7_extension_of_last_component [OF dot ascii, of "''Photo.JPeG''"] h2 by blast
  have v2: "specExtension (singleFileWorld [] []) ''Photo.JPeG'' = ''jpeg''" by code_simp
  have h3: "isAscii ''/srv/My.Dir/Clip.final.MP4/''" by code_simp
  have lc: "lastComponent ''/srv/My.Dir/Clip.final.MP4/'' = ''Clip.final.MP4''" by code_simp
  have ald: "afterLastDot ''Clip.final.MP4'' = ''MP4''" by code_simp
  have low: "asciiLowerCase ''MP4'' = ''mp4''" by code_simp
  have "derivedExtension (singleFileWorld [] []) ''/srv/My.Dir/Clip.final.MP4/'' =
        (let c = lastComponent ''/srv/My.Dir/Clip.final.MP4/'' in
         if CHR ''.'' \<notin> set c \<or> c = CHR ''.'' # afterLastDot c \<or> c = ''..'' then []
         else asciiLowerCase (afterLastDot c))"
    using C7_extension_of_last_component [OF dot ascii, of "''/srv/My.Dir/Clip.final.MP4/''"] h3
    by blast
  then have r3: "derivedExtension (singleFileWorld [] []) ''/srv/My.Dir/Clip.final.MP4/'' = ''mp4''"
    unfolding lc Let_def ald low by simp
  show ?thesis using w dot h1 r1 h2 r2 v2 h3 lc ald r3 r4 by blast
qed

end
